theory Spec2Isabelle
  imports Main "HOL-Library.Multiset"
begin

section \<open>The remote platform as seen by \<open>pytest_gee/utils.py\<close>\<close>

text \<open>
  The module is orchestration of calls to the Earth Engine client. The client is not part
  of the repository, so the platform is a value \<open>ee\<close> that every function receives and
  returns: what the platform answers to a query, and the list of the requests it has
  received. Exceptions are values of \<open>error\<close>; a function returns its result (or the
  exception) together with the platform as it left it, so that whatever was done before
  an exception stays visible.
\<close>

datatype error = AssertionError | ValueError | IndexError | RecursionError | EEException

text \<open>An asset as the listing calls return it: a dict with the keys type, name and id.\<close>

record asset =
  a_type :: string
  a_name :: string
  a_id :: string

text \<open>
  A computed object. Only the two classes \<open>export_asset\<close> tests with \<open>isinstance\<close>
  are told apart; the string stands for the server-side expression.
\<close>

datatype ee_object = FeatureCollection string | Image string | Computed string

text \<open>
  The requests that leave a trace: the two task queries, and the requests that ask the
  platform to change something (the two export tasks carry the object, the description
  and the asset id). The asset queries \<open>getAsset\<close>, \<open>listAssets\<close> and
  \<open>getAssetRoots\<close> leave none.
\<close>

datatype request =
    TaskList
  | TaskStatus string
  | CreateFolder string
  | DeleteAsset string
  | ExportTable ee_object string string
  | ExportImage ee_object string string

text \<open>
  A task handle: its \<open>config["description"]\<close>, and the state that \<open>status()["state"]\<close>
  reports when it is asked at a given time.
\<close>

record task =
  config_description :: string
  state_at :: "int \<Rightarrow> string"

text \<open>
  \<^item> \<open>clock\<close>: \<open>time.time()\<close>, in whole seconds; \<open>time.sleep(s)\<close> advances it by
    exactly \<open>s\<close> and nothing else takes time.
  \<^item> \<open>task_list\<close>: \<open>ee.batch.Task.list()\<close>, the most recent task first.
  \<^item> \<open>asset_roots\<close>: \<open>ee.data.getAssetRoots()\<close>.
  \<^item> \<open>list_assets\<close>: \<open>ee.data.listAssets({"parent": p})["assets"]\<close>; \<open>None\<close> when the
    platform raises.
  \<^item> \<open>asset_info\<close>: \<open>ee.data.getAsset(p)\<close>; \<open>None\<close> when the platform raises.
  \<^item> \<open>refuses\<close>: whether the platform raises on a changing request, given the requests
    received so far (a folder that exists already, a missing permission, ...).
  \<^item> \<open>lifecycle\<close>: the states a task started by an export request goes through, by time.
  \<^item> \<open>recursion_limit\<close>: how many nested calls of \<open>_recursive_get\<close> the interpreter
    allows before it raises \<open>RecursionError\<close>.
  \<^item> \<open>calls\<close>: the requests received, oldest first.
\<close>

record ee =
  clock :: int
  task_list :: "task list"
  asset_roots :: "asset list"
  list_assets :: "string \<Rightarrow> asset list option"
  asset_info :: "string \<Rightarrow> asset option"
  refuses :: "request list \<Rightarrow> request \<Rightarrow> bool"
  lifecycle :: "request \<Rightarrow> int \<Rightarrow> string"
  recursion_limit :: nat
  calls :: "request list"

definition sleep :: "int \<Rightarrow> ee \<Rightarrow> ee" where
  "sleep s w = w\<lparr>clock := clock w + s\<rparr>"

definition record_call :: "request \<Rightarrow> ee \<Rightarrow> ee" where
  "record_call r w = w\<lparr>calls := calls w @ [r]\<rparr>"

text \<open>\<open>task.status()["state"]\<close>\<close>

definition status_state :: "task \<Rightarrow> ee \<Rightarrow> string \<times> ee" where
  "status_state t w = (state_at t (clock w), record_call (TaskStatus (config_description t)) w)"

text \<open>\<open>ee.batch.Task.list()\<close>\<close>

definition Task_list :: "ee \<Rightarrow> task list \<times> ee" where
  "Task_list w = (task_list w, record_call TaskList w)"

text \<open>
  A changing request (\<open>createAsset\<close>, \<open>deleteAsset\<close>, \<open>task.start()\<close>): the platform
  raises, or takes the request.
\<close>

definition submit :: "request \<Rightarrow> ee \<Rightarrow> (error + unit) \<times> ee" where
  "submit r w = (if refuses w (calls w) r then (Inl EEException, w) else (Inr (), record_call r w))"

text \<open>
  \<open>task.start()\<close>: once the platform has taken the request, the task heads the task list
  and goes through the states the platform gives it.
\<close>

definition start :: "request \<Rightarrow> string \<Rightarrow> ee \<Rightarrow> (error + unit) \<times> ee" where
  "start r d w =
     (case submit r w of
        (Inl e, w1) \<Rightarrow> (Inl e, w1)
      | (Inr u, w1) \<Rightarrow>
          (Inr (), w1\<lparr>task_list := \<lparr>config_description = d, state_at = lifecycle w r\<rparr> # task_list w1\<rparr>))"

section \<open>Paths\<close>

text \<open>
  \<open>s.split(c)\<close> for a one-character separator, as a scan that carries the piece it is
  reading: one more piece than separators, and \<open>[""]\<close> for the empty string.
\<close>

fun split_scan :: "string \<Rightarrow> string \<Rightarrow> char \<Rightarrow> string list" where
  "split_scan piece [] c = [piece]"
| "split_scan piece (x # xs) c =
     (if x = c then piece # split_scan [] xs c else split_scan (piece @ [x]) xs c)"

definition split :: "string \<Rightarrow> char \<Rightarrow> string list" where
  "split s c = split_scan [] s c"

text \<open>\<open>sep.join(parts)\<close>\<close>

fun join :: "string \<Rightarrow> string list \<Rightarrow> string" where
  "join sep [] = []"
| "join sep [p] = p"
| "join sep (p # q # ps) = p @ sep @ join sep (q # ps)"

text \<open>
  A \<open>PurePosixPath\<close>, as \<open>pathlib\<close> holds it: the root (empty, one slash or two) and the
  components, none of them empty or a single dot.
\<close>

record pure_path =
  path_root :: string
  path_tail :: "string list"

text \<open>\<open>posixpath.splitroot\<close>: exactly two leading slashes are kept, three or more are one.\<close>

fun splitroot :: "string \<Rightarrow> string \<times> string" where
  "splitroot (a # b # c # rest) =
     (if a \<noteq> CHR ''/'' then ([], a # b # c # rest)
      else if b \<noteq> CHR ''/'' \<or> c = CHR ''/'' then (''/'', b # c # rest)
      else (''//'', c # rest))"
| "splitroot [a, b] =
     (if a \<noteq> CHR ''/'' then ([], [a, b])
      else if b \<noteq> CHR ''/'' then (''/'', [b])
      else (''//'', []))"
| "splitroot [a] = (if a \<noteq> CHR ''/'' then ([], [a]) else (''/'', []))"
| "splitroot [] = ([], [])"

text \<open>\<open>PurePosixPath(s)\<close>\<close>

definition PurePosixPath :: "string \<Rightarrow> pure_path" where
  "PurePosixPath s =
     (case splitroot s of
        (r, rel) \<Rightarrow> \<lparr>path_root = r, path_tail = filter (\<lambda>x. x \<noteq> [] \<and> x \<noteq> ''.'') (split rel CHR ''/'')\<rparr>)"

text \<open>\<open>str(p)\<close> and \<open>p.as_posix()\<close>\<close>

definition as_posix :: "pure_path \<Rightarrow> string" where
  "as_posix p =
     (if path_root p = [] \<and> path_tail p = [] then ''.''
      else path_root p @ join ''/'' (path_tail p))"

text \<open>
  \<open>p / name\<close>: a name that starts with a slash replaces the path, any other name adds its
  components.
\<close>

definition truediv :: "pure_path \<Rightarrow> string \<Rightarrow> pure_path" where
  "truediv p nm =
     (if nm \<noteq> [] \<and> hd nm = CHR ''/'' then PurePosixPath nm
      else p\<lparr>path_tail := path_tail p @ filter (\<lambda>x. x \<noteq> [] \<and> x \<noteq> ''.'') (split nm CHR ''/'')\<rparr>)"

text \<open>An argument typed \<open>Union[str, Path]\<close>, and the string the functions make of it.\<close>

datatype path_arg = Str string | Path pure_path

fun to_str :: "path_arg \<Rightarrow> string" where
  "to_str (Str s) = s"
| "to_str (Path p) = as_posix p"

section \<open>\<open>wait\<close> and \<open>get_task\<close>\<close>

text \<open>The loop of \<open>get_task\<close>: the first task of the list with the description.\<close>

fun get_task_loop :: "task list \<Rightarrow> string \<Rightarrow> task option" where
  "get_task_loop [] task_descripsion = None"
| "get_task_loop (t # ts) task_descripsion =
     (if config_description t = task_descripsion then Some t else get_task_loop ts task_descripsion)"

definition get_task :: "string \<Rightarrow> ee \<Rightarrow> task option \<times> ee" where
  "get_task task_descripsion w =
     (case Task_list w of (ts, w1) \<Rightarrow> (get_task_loop ts task_descripsion, w1))"

text \<open>
  The polling loop of \<open>wait\<close>, from the test of the \<open>while\<close>. Each round sleeps five
  seconds, so the time left decreases and the loop ends.
\<close>

function wait_loop :: "task \<Rightarrow> int \<Rightarrow> int \<Rightarrow> string \<Rightarrow> ee \<Rightarrow> string \<times> ee" where
  "wait_loop t start_time timeout state w =
     (if state \<noteq> ''COMPLETED'' \<and> clock w - start_time < timeout then
        (case status_state t (sleep 5 w) of
           (state', w') \<Rightarrow>
             if state' = ''FAILED'' then (state', w')
             else wait_loop t start_time timeout state' w')
      else (state, w))"
  by pat_completeness auto
termination
  by (relation "measure (\<lambda>(t, start_time, timeout, state, w). nat (timeout - (clock w - start_time)))")
     (auto simp: status_state_def sleep_def record_call_def)

declare wait_loop.simps [simp del]

text \<open>The argument \<open>task\<close> of \<open>wait\<close>: a task object or a description.\<close>

datatype task_arg = TaskObject task | TaskDescription string

text \<open>\<open>task if isinstance(task, ee.batch.Task) else get_task(task)\<close>\<close>

fun resolve_task :: "task_arg \<Rightarrow> ee \<Rightarrow> task option \<times> ee" where
  "resolve_task (TaskObject t) w = (Some t, w)"
| "resolve_task (TaskDescription d) w = get_task d w"

definition wait :: "task_arg \<Rightarrow> int \<Rightarrow> ee \<Rightarrow> (error + string) \<times> ee" where
  "wait task_in timeout w =
     (case resolve_task task_in (sleep 5 w) of
        (None, w2) \<Rightarrow> (Inl AssertionError, w2)
      | (Some t, w2) \<Rightarrow>
          (case wait_loop t (clock w2) timeout ''UNSUBMITTED'' w2 of
             (state, w3) \<Rightarrow> (Inr state, w3)))"

section \<open>\<open>get_assets\<close>\<close>

text \<open>
  \<open>_recursive_get\<close> and its \<open>for\<close> loop. The list \<open>asset_list\<close> is one object that
  every call appends to and hands back. The first argument is the number of nested calls
  the interpreter still allows: a listing that never bottoms out ends in
  \<open>RecursionError\<close>.
\<close>

function recursive_get :: "nat \<Rightarrow> ee \<Rightarrow> string \<Rightarrow> asset list \<Rightarrow> error + asset list"
  and recursive_get_loop :: "nat \<Rightarrow> ee \<Rightarrow> asset list \<Rightarrow> asset list \<Rightarrow> error + asset list"
where
  "recursive_get 0 w folder asset_list = Inl RecursionError"
| "recursive_get (Suc n) w folder asset_list =
     (case list_assets w folder of
        None \<Rightarrow> Inl EEException
      | Some assets \<Rightarrow> recursive_get_loop n w assets asset_list)"
| "recursive_get_loop n w [] asset_list = Inr asset_list"
| "recursive_get_loop n w (asset # rest) asset_list =
     (if a_type asset = ''FOLDER'' then
        (case recursive_get n w (a_name asset) (asset_list @ [asset]) of
           Inl e \<Rightarrow> Inl e
         | Inr asset_list' \<Rightarrow> recursive_get_loop n w rest asset_list')
      else recursive_get_loop n w rest (asset_list @ [asset]))"
  by pat_completeness auto
termination
  by (relation "measures
        [\<lambda>x. case x of Inl (n, w, folder, acc) \<Rightarrow> 2 * n | Inr (n, w, assets, acc) \<Rightarrow> 2 * n + 1,
         \<lambda>x. case x of Inl (n, w, folder, acc) \<Rightarrow> 0 | Inr (n, w, assets, acc) \<Rightarrow> length assets]")
     auto

definition get_assets :: "path_arg \<Rightarrow> ee \<Rightarrow> error + asset list" where
  "get_assets folder w = recursive_get (recursion_limit w) w (to_str folder) []"

section \<open>\<open>export_asset\<close>\<close>

text \<open>
  The task that \<open>Export.table.toAsset\<close> or \<open>Export.image.toAsset\<close> builds, by the class
  of the object; \<open>None\<close> is the \<open>else\<close> branch.
\<close>

fun to_asset :: "ee_object \<Rightarrow> string \<Rightarrow> string \<Rightarrow> request option" where
  "to_asset (FeatureCollection x) description asset_id =
     Some (ExportTable (FeatureCollection x) description asset_id)"
| "to_asset (Image x) description asset_id =
     Some (ExportImage (Image x) description asset_id)"
| "to_asset (Computed x) description asset_id = None"

definition export_asset ::
  "ee_object \<Rightarrow> path_arg \<Rightarrow> string \<Rightarrow> ee \<Rightarrow> (error + pure_path) \<times> ee" where
  "export_asset object asset_id description w =
     (case to_asset object description (to_str asset_id) of
        None \<Rightarrow> (Inl ValueError, w)
      | Some task \<Rightarrow>
          (case start task description w of
             (Inl e, w1) \<Rightarrow> (Inl e, w1)
           | (Inr u, w1) \<Rightarrow>
               (case wait (TaskDescription description) 60 w1 of
                  (Inl e, w2) \<Rightarrow> (Inl e, w2)
                | (Inr state, w2) \<Rightarrow> (Inr (PurePosixPath (to_str asset_id)), w2))))"

section \<open>\<open>init_tree\<close>\<close>

text \<open>
  The tree specification: a dict, in the order of its items, whose values are dicts or
  objects to export.
\<close>

datatype content = Mapping "(string \<times> content) list" | Object ee_object

text \<open>\<open>_recursive_create\<close>: the loop over the items, and the call on a sub-dict.\<close>

fun recursive_create ::
  "(string \<times> content) list \<Rightarrow> string \<Rightarrow> pure_path \<Rightarrow> ee \<Rightarrow> (error + unit) \<times> ee" where
  "recursive_create [] prefix folder w = (Inr (), w)"
| "recursive_create ((name, Mapping sub) # rest) prefix folder w =
     (case submit (CreateFolder (as_posix (truediv folder name))) w of
        (Inl e, w1) \<Rightarrow> (Inl e, w1)
      | (Inr u, w1) \<Rightarrow>
          (case recursive_create sub prefix (truediv folder name) w1 of
             (Inl e, w2) \<Rightarrow> (Inl e, w2)
           | (Inr u, w2) \<Rightarrow> recursive_create rest prefix folder w2))"
| "recursive_create ((name, Object obj) # rest) prefix folder w =
     (case export_asset obj (Path (truediv folder name)) (prefix @ ''_'' @ name) w of
        (Inl e, w1) \<Rightarrow> (Inl e, w1)
      | (Inr p, w1) \<Rightarrow> recursive_create rest prefix folder w1)"

text \<open>
  The argument \<open>root\<close> is rebound from the first registered root before it is read;
  \<open>getAssetRoots()[0]\<close> raises on an account with no root.
\<close>

definition init_tree ::
  "(string \<times> content) list \<Rightarrow> string \<Rightarrow> string \<Rightarrow> ee \<Rightarrow> (error + pure_path) \<times> ee" where
  "init_tree structure prefix root w =
     (case asset_roots w of
        [] \<Rightarrow> (Inl IndexError, w)
      | r # rs \<Rightarrow>
          (let root = a_id r; root_folder = root @ ''/'' @ prefix in
           case submit (CreateFolder root_folder) w of
             (Inl e, w1) \<Rightarrow> (Inl e, w1)
           | (Inr u, w1) \<Rightarrow>
               (case recursive_create structure prefix (PurePosixPath root_folder) w1 of
                  (Inl e, w2) \<Rightarrow> (Inl e, w2)
                | (Inr u, w2) \<Rightarrow> (Inr (PurePosixPath root_folder), w2))))"

section \<open>\<open>delete_assets\<close>\<close>

text \<open>
  The closure \<open>delete\<close>: it appends to \<open>output\<close> and, outside a dry run, asks the
  platform to delete. The pair is the list \<open>output\<close> and the platform.
\<close>

definition delete :: "bool \<Rightarrow> string \<Rightarrow> string list \<times> ee \<Rightarrow> (error + unit) \<times> string list \<times> ee" where
  "delete dry_run ident s =
     (case s of (output, w) \<Rightarrow>
        if dry_run then (Inr (), output @ [ident], w)
        else (case submit (DeleteAsset ident) w of
                (r, w1) \<Rightarrow> (r, output @ [ident], w1)))"

text \<open>\<open>assets_ordered.setdefault(lvl, []); assets_ordered[lvl].append(asset)\<close>, on a dict
  kept in the order its keys came in.\<close>

fun setdefault_append :: "(nat \<times> asset list) list \<Rightarrow> nat \<Rightarrow> asset \<Rightarrow> (nat \<times> asset list) list" where
  "setdefault_append [] lvl asset = [(lvl, [asset])]"
| "setdefault_append ((k, v) # d) lvl asset =
     (if k = lvl then (k, v @ [asset]) # d else (k, v) # setdefault_append d lvl asset)"

text \<open>The loop that splits the assets by nesting level.\<close>

fun split_levels :: "asset list \<Rightarrow> (nat \<times> asset list) list \<Rightarrow> (nat \<times> asset list) list" where
  "split_levels [] assets_ordered = assets_ordered"
| "split_levels (asset # rest) assets_ordered =
     split_levels rest
       (setdefault_append assets_ordered (length (split (a_id asset) CHR ''/'')) asset)"

text \<open>
  \<open>dict(sorted(assets_ordered.items(), reverse=True))\<close>: the keys of a dict differ, so
  the comparison of two items is the comparison of their levels; the sort is stable.
\<close>

definition sorted_reverse :: "(nat \<times> asset list) list \<Rightarrow> (nat \<times> asset list) list" where
  "sorted_reverse items = sort_key (\<lambda>item. - int (fst item)) items"

text \<open>The two nested \<open>for\<close> loops; an exception of \<open>delete\<close> ends them.\<close>

fun delete_level :: "bool \<Rightarrow> asset list \<Rightarrow> string list \<times> ee \<Rightarrow> (error + unit) \<times> string list \<times> ee" where
  "delete_level dry_run [] s = (Inr (), s)"
| "delete_level dry_run (i # rest) s =
     (case delete dry_run (a_name i) s of
        (Inl e, s1) \<Rightarrow> (Inl e, s1)
      | (Inr u, s1) \<Rightarrow> delete_level dry_run rest s1)"

fun delete_levels ::
  "bool \<Rightarrow> (nat \<times> asset list) list \<Rightarrow> string list \<times> ee \<Rightarrow> (error + unit) \<times> string list \<times> ee" where
  "delete_levels dry_run [] s = (Inr (), s)"
| "delete_levels dry_run ((lvl, assets) # rest) s =
     (case delete_level dry_run assets s of
        (Inl e, s1) \<Rightarrow> (Inl e, s1)
      | (Inr u, s1) \<Rightarrow> delete_levels dry_run rest s1)"

definition delete_assets :: "path_arg \<Rightarrow> bool \<Rightarrow> ee \<Rightarrow> (error + string list) \<times> ee" where
  "delete_assets asset_id dry_run w =
     (case asset_info w (to_str asset_id) of
        None \<Rightarrow> (Inl EEException, w)
      | Some info \<Rightarrow>
          (case (if a_type info = ''FOLDER'' then
                   (case get_assets (Str (to_str asset_id)) w of
                      Inl e \<Rightarrow> (Inl e, [], w)
                    | Inr asset_list \<Rightarrow>
                        delete_levels dry_run (sorted_reverse (split_levels asset_list [])) ([], w))
                 else (Inr (), [], w)) of
             (Inl e, output, w1) \<Rightarrow> (Inl e, w1)
           | (Inr u, s1) \<Rightarrow>
               (case delete dry_run (to_str asset_id) s1 of
                  (Inl e, output, w2) \<Rightarrow> (Inl e, w2)
                | (Inr u, output, w2) \<Rightarrow> (Inr output, w2))))"

section \<open>Vocabulary of the properties\<close>

text \<open>
  The platform after \<open>k\<close> more rounds of the polling loop on task \<open>t\<close>: \<open>5 k\<close> seconds
  later, with \<open>k\<close> more status requests.
\<close>

definition polled :: "task \<Rightarrow> nat \<Rightarrow> ee \<Rightarrow> ee" where
  "polled t k w =
     w\<lparr>clock := clock w + 5 * int k,
       calls := calls w @ replicate k (TaskStatus (config_description t))\<rparr>"

text \<open>The state that the \<open>k\<close>-th poll sees, counted from the platform the loop starts on.\<close>

definition observed :: "task \<Rightarrow> ee \<Rightarrow> nat \<Rightarrow> string" where
  "observed t w k = state_at t (clock w + 5 * int k)"

definition terminal :: "string \<Rightarrow> bool" where
  "terminal s = (s = ''COMPLETED'' \<or> s = ''FAILED'')"

text \<open>The number of polls a timeout allows: a poll starts while the time spent is below it.\<close>

definition polls_allowed :: "int \<Rightarrow> nat" where
  "polls_allowed timeout = nat ((timeout + 4) div 5)"

text \<open>
  A folder hierarchy: an asset with the trees listed under it. \<open>stored\<close> says that the
  platform lists exactly the children of every folder of a tree, in their order, and that
  an asset that is not a folder has none; \<open>hosts\<close> says so of the trees under a folder
  path. The height counts nested folders.
\<close>

datatype asset_tree = Node asset "asset_tree list"

fun root_asset :: "asset_tree \<Rightarrow> asset" where
  "root_asset (Node a ts) = a"

fun preorder :: "asset_tree \<Rightarrow> asset list" where
  "preorder (Node a ts) = a # concat (map preorder ts)"

fun height :: "asset_tree \<Rightarrow> nat" where
  "height (Node a ts) =
     (if a_type a = ''FOLDER'' then Suc (foldr (\<lambda>t m. max (height t) m) ts 0) else 0)"

definition forest_height :: "asset_tree list \<Rightarrow> nat" where
  "forest_height ts = foldr (\<lambda>t m. max (height t) m) ts 0"

fun stored :: "ee \<Rightarrow> asset_tree \<Rightarrow> bool" where
  "stored w (Node a ts) =
     (if a_type a = ''FOLDER''
      then list_assets w (a_name a) = Some (map root_asset ts) \<and> (\<forall>t\<in>set ts. stored w t)
      else ts = [])"

definition hosts :: "ee \<Rightarrow> string \<Rightarrow> asset_tree list \<Rightarrow> bool" where
  "hosts w folder ts = (list_assets w folder = Some (map root_asset ts) \<and> (\<forall>t\<in>set ts. stored w t))"

text \<open>
  The nesting level \<open>delete_assets\<close> computes for an asset, the assets sorted from the
  deepest level up with assets of one level kept in their order, and the platform after it
  has taken delete requests for a list of ids.
\<close>

definition nesting_level :: "asset \<Rightarrow> nat" where
  "nesting_level a = length (split (a_id a) CHR ''/'')"

definition deepest_first :: "asset list \<Rightarrow> asset list" where
  "deepest_first assets = sort_key (\<lambda>a. - int (nesting_level a)) assets"

definition deleted :: "string list \<Rightarrow> ee \<Rightarrow> ee" where
  "deleted ids w = w\<lparr>calls := calls w @ map DeleteAsset ids\<rparr>"

text \<open>
  The dict \<open>assets_ordered\<close> holds the levels of a list of assets: one key for each level
  that occurs, with the assets of that level in the order of the list.
\<close>

definition levels_of :: "asset list \<Rightarrow> (nat \<times> asset list) list \<Rightarrow> bool" where
  "levels_of xs d =
     (distinct (map fst d) \<and>
      (\<forall>k. map_of d k =
         (if \<exists>a\<in>set xs. nesting_level a = k then Some (filter (\<lambda>a. nesting_level a = k) xs)
          else None)))"

text \<open>
  The task that \<open>start\<close> puts at the head of the task list, and the platform after it has
  taken the request.
\<close>

definition started_task :: "ee \<Rightarrow> request \<Rightarrow> string \<Rightarrow> task" where
  "started_task w r d = \<lparr>config_description = d, state_at = lifecycle w r\<rparr>"

definition started :: "ee \<Rightarrow> request \<Rightarrow> string \<Rightarrow> ee" where
  "started w r d = (record_call r w)\<lparr>task_list := started_task w r d # task_list w\<rparr>"

text \<open>The requests that ask for a change, and those a platform has received.\<close>

fun changing :: "request \<Rightarrow> bool" where
  "changing TaskList = False"
| "changing (TaskStatus d) = False"
| "changing r = True"

definition changes :: "ee \<Rightarrow> request list" where
  "changes w = filter changing (calls w)"

text \<open>
  What a tree specification asks for, in the words of the specification: for an item whose
  value is a mapping, a folder named after the key and then the items of the mapping in
  that folder; for an item whose value is a feature collection or an image, an export to
  an asset named after the key, described as prefix, underscore, key. A name is put under
  a folder the way \<open>pathlib\<close> does it.
\<close>

fun planned :: "string \<Rightarrow> pure_path \<Rightarrow> (string \<times> content) list \<Rightarrow> request list" where
  "planned prefix folder [] = []"
| "planned prefix folder ((name, Mapping sub) # rest) =
     CreateFolder (as_posix (truediv folder name)) #
     planned prefix (truediv folder name) sub @ planned prefix folder rest"
| "planned prefix folder ((name, Object (FeatureCollection x)) # rest) =
     ExportTable (FeatureCollection x) (prefix @ ''_'' @ name) (as_posix (truediv folder name)) #
     planned prefix folder rest"
| "planned prefix folder ((name, Object (Image x)) # rest) =
     ExportImage (Image x) (prefix @ ''_'' @ name) (as_posix (truediv folder name)) #
     planned prefix folder rest"
| "planned prefix folder ((name, Object (Computed x)) # rest) = planned prefix folder rest"

text \<open>Every object of the specification is a feature collection or an image.\<close>

fun exportable :: "(string \<times> content) list \<Rightarrow> bool" where
  "exportable [] = True"
| "exportable ((name, Mapping sub) # rest) = (exportable sub \<and> exportable rest)"
| "exportable ((name, Object (Computed x)) # rest) = False"
| "exportable ((name, Object obj) # rest) = exportable rest"

text \<open>
  A platform that raises on a changing request only when it has received the same request
  before (the folder exists already, the asset is gone already).
\<close>

definition repeats_only :: "ee \<Rightarrow> bool" where
  "repeats_only w = (\<forall>h r. refuses w h r \<longrightarrow> r \<in> set h)"

text \<open>The string \<open>f"{root}/{prefix}"\<close> for the first registered root of the account.\<close>

definition root_folder :: "ee \<Rightarrow> string \<Rightarrow> string" where
  "root_folder w prefix = a_id (hd (asset_roots w)) @ ''/'' @ prefix"

text \<open>A key that is a single path component: not empty, not a dot, without a slash.\<close>

definition plain :: "string \<Rightarrow> bool" where
  "plain nm = (nm \<noteq> [] \<and> nm \<noteq> ''.'' \<and> CHR ''/'' \<notin> set nm)"

text \<open>Every key of the specification, at every level, is plain.\<close>

fun plain_keys :: "(string \<times> content) list \<Rightarrow> bool" where
  "plain_keys [] = True"
| "plain_keys ((name, Mapping sub) # rest) = (plain name \<and> plain_keys sub \<and> plain_keys rest)"
| "plain_keys ((name, Object obj) # rest) = (plain name \<and> plain_keys rest)"

text \<open>
  The plan with the paths written out: under the folder \<open>f\<close>, the key \<open>k\<close> names
  \<open>f/k\<close>.
\<close>

fun named :: "string \<Rightarrow> string \<Rightarrow> (string \<times> content) list \<Rightarrow> request list" where
  "named prefix folder [] = []"
| "named prefix folder ((name, Mapping sub) # rest) =
     CreateFolder (folder @ ''/'' @ name) #
     named prefix (folder @ ''/'' @ name) sub @ named prefix folder rest"
| "named prefix folder ((name, Object (FeatureCollection x)) # rest) =
     ExportTable (FeatureCollection x) (prefix @ ''_'' @ name) (folder @ ''/'' @ name) #
     named prefix folder rest"
| "named prefix folder ((name, Object (Image x)) # rest) =
     ExportImage (Image x) (prefix @ ''_'' @ name) (folder @ ''/'' @ name) #
     named prefix folder rest"
| "named prefix folder ((name, Object (Computed x)) # rest) = named prefix folder rest"

section \<open>Test accounts\<close>

text \<open>A task that runs until a given time and is in a given state from then on.\<close>

definition running_until :: "int \<Rightarrow> string \<Rightarrow> task" where
  "running_until t0 final =
     \<lparr>config_description = ''toto_image'',
      state_at = (\<lambda>t. if t < t0 then ''RUNNING'' else final)\<rparr>"

text \<open>
  An account with one root, no asset and no task, on a platform that takes every request
  and completes an export twenty seconds after the start of the clock.
\<close>

definition empty_account :: ee where
  "empty_account =
     \<lparr>clock = 0, task_list = [],
      asset_roots = [\<lparr>a_type = ''FOLDER'', a_name = ''projects/earthengine-legacy/assets/users/bob'',
                      a_id = ''users/bob''\<rparr>],
      list_assets = (\<lambda>p. None), asset_info = (\<lambda>p. None),
      refuses = (\<lambda>h r. False),
      lifecycle = (\<lambda>r t. if t < 20 then ''RUNNING'' else ''COMPLETED''),
      recursion_limit = 1000, calls = []\<rparr>"

text \<open>
  The account once the tree \<open>{"folder_1": {"image": ..., "fc": ...}}\<close> has been created
  under the prefix \<open>toto\<close>, with an empty folder beside it. The assets are legacy
  assets: their name is their id behind \<open>projects/earthengine-legacy/assets/\<close>.
\<close>

definition toto_folder :: asset where
  "toto_folder =
     \<lparr>a_type = ''FOLDER'', a_name = ''projects/earthengine-legacy/assets/users/bob/toto'',
      a_id = ''users/bob/toto''\<rparr>"

definition folder_1 :: asset where
  "folder_1 =
     \<lparr>a_type = ''FOLDER'', a_name = ''projects/earthengine-legacy/assets/users/bob/toto/folder_1'',
      a_id = ''users/bob/toto/folder_1''\<rparr>"

definition image_asset :: asset where
  "image_asset =
     \<lparr>a_type = ''IMAGE'', a_name = ''projects/earthengine-legacy/assets/users/bob/toto/folder_1/image'',
      a_id = ''users/bob/toto/folder_1/image''\<rparr>"

definition fc_asset :: asset where
  "fc_asset =
     \<lparr>a_type = ''TABLE'', a_name = ''projects/earthengine-legacy/assets/users/bob/toto/folder_1/fc'',
      a_id = ''users/bob/toto/folder_1/fc''\<rparr>"

definition empty_folder :: asset where
  "empty_folder =
     \<lparr>a_type = ''FOLDER'', a_name = ''projects/earthengine-legacy/assets/users/bob/empty'',
      a_id = ''users/bob/empty''\<rparr>"

definition toto_account :: ee where
  "toto_account =
     empty_account
       \<lparr>list_assets :=
          map_of [(''users/bob/toto'', [folder_1]),
                  (''users/bob/empty'', []),
                  (a_name folder_1, [image_asset, fc_asset])],
        asset_info :=
          map_of [(''users/bob/toto'', toto_folder),
                  (''users/bob/empty'', empty_folder),
                  (''users/bob/toto/folder_1/image'', image_asset)]\<rparr>"

text \<open>The trees under \<open>users/bob/toto\<close>.\<close>

definition toto_trees :: "asset_tree list" where
  "toto_trees = [Node folder_1 [Node image_asset [], Node fc_asset []]]"

text \<open>The tree specification of the docstring of \<open>init_tree\<close>.\<close>

definition toto_structure :: "(string \<times> content) list" where
  "toto_structure =
     [(''folder_1'',
       Mapping [(''image'', Object (Image ''ee.Image(1)'')),
                (''fc'', Object (FeatureCollection ''ee.FeatureCollection(ee.Geometry.Point([0, 0]))''))])]"

text \<open>
  The empty account on a platform that raises on a request it has received before, as on
  the creation of a folder that exists.
\<close>

definition strict_account :: ee where
  "strict_account = empty_account\<lparr>refuses := (\<lambda>h r. r \<in> set h)\<rparr>"

section \<open>Properties of \<open>wait\<close>\<close>

lemma poll_step: "status_state t (sleep 5 w) = (observed t w (Suc 0), polled t (Suc 0) w)"
  by (simp add: status_state_def sleep_def record_call_def observed_def polled_def)

lemma polled_Suc: "polled t k (polled t (Suc 0) w) = polled t (Suc k) w"
  by (simp add: polled_def replicate_append_same)

lemma observed_Suc: "observed t (polled t (Suc 0) w) k = observed t w (Suc k)"
  by (simp add: polled_def observed_def algebra_simps)

lemma clock_polled: "clock (polled t k w) = clock w + 5 * int k"
  by (simp add: polled_def)

lemma wait_loop_stop:
  "state = ''COMPLETED'' \<or> timeout \<le> clock w - start_time \<Longrightarrow>
   wait_loop t start_time timeout state w = (state, w)"
  by (subst wait_loop.simps) auto

lemma wait_loop_round:
  assumes "state \<noteq> ''COMPLETED''" and "clock w - start_time < timeout"
    and "\<not> terminal (observed t w (Suc 0))"
  shows "wait_loop t start_time timeout state w =
         wait_loop t start_time timeout (observed t w (Suc 0)) (polled t (Suc 0) w)"
  using assms by (subst wait_loop.simps) (auto simp: poll_step terminal_def)

text \<open>The loop ends on the first poll that sees a terminal state.\<close>

lemma wait_loop_terminal:
  "state \<noteq> ''COMPLETED'' \<Longrightarrow> clock w - start_time + 5 * int k < timeout \<Longrightarrow>
   (\<forall>j. 1 \<le> j \<and> j \<le> k \<longrightarrow> \<not> terminal (observed t w j)) \<Longrightarrow>
   terminal (observed t w (Suc k)) \<Longrightarrow>
   wait_loop t start_time timeout state w = (observed t w (Suc k), polled t (Suc k) w)"
proof (induction k arbitrary: w state)
  case 0
  then show ?case
    by (subst wait_loop.simps) (auto simp: poll_step terminal_def wait_loop_stop)
next
  case (Suc k)
  have nt: "\<not> terminal (observed t w (Suc 0))"
    using Suc.prems(3) by simp
  have "wait_loop t start_time timeout state w =
        wait_loop t start_time timeout (observed t w (Suc 0)) (polled t (Suc 0) w)"
    using Suc.prems(1,2) nt by (intro wait_loop_round) auto
  also have "\<dots> = (observed t (polled t (Suc 0) w) (Suc k), polled t (Suc k) (polled t (Suc 0) w))"
  proof (rule Suc.IH)
    show "observed t w (Suc 0) \<noteq> ''COMPLETED''"
      using nt by (simp add: terminal_def)
    show "clock (polled t (Suc 0) w) - start_time + 5 * int k < timeout"
      using Suc.prems(2) by (simp add: clock_polled)
    show "\<forall>j. 1 \<le> j \<and> j \<le> k \<longrightarrow> \<not> terminal (observed t (polled t (Suc 0) w) j)"
      using Suc.prems(3) by (simp add: observed_Suc)
    show "terminal (observed t (polled t (Suc 0) w) (Suc k))"
      using Suc.prems(4) by (simp add: observed_Suc)
  qed
  finally show ?case
    by (simp add: observed_Suc polled_Suc)
qed

text \<open>Without a terminal state the loop ends on the first test after the timeout.\<close>

lemma wait_loop_timeout:
  "state \<noteq> ''COMPLETED'' \<Longrightarrow> clock w - start_time + 5 * int n < timeout \<Longrightarrow>
   timeout \<le> clock w - start_time + 5 * int (Suc n) \<Longrightarrow>
   (\<forall>j. 1 \<le> j \<and> j \<le> Suc n \<longrightarrow> \<not> terminal (observed t w j)) \<Longrightarrow>
   wait_loop t start_time timeout state w = (observed t w (Suc n), polled t (Suc n) w)"
proof (induction n arbitrary: w state)
  case 0
  have nt: "\<not> terminal (observed t w (Suc 0))"
    using 0(4) by simp
  have "wait_loop t start_time timeout state w =
        wait_loop t start_time timeout (observed t w (Suc 0)) (polled t (Suc 0) w)"
    using 0(1,2) nt by (intro wait_loop_round) auto
  also have "\<dots> = (observed t w (Suc 0), polled t (Suc 0) w)"
    using 0(3) by (intro wait_loop_stop) (simp add: clock_polled)
  finally show ?case by simp
next
  case (Suc n)
  have nt: "\<not> terminal (observed t w (Suc 0))"
    using Suc.prems(4) by simp
  have "wait_loop t start_time timeout state w =
        wait_loop t start_time timeout (observed t w (Suc 0)) (polled t (Suc 0) w)"
    using Suc.prems(1,2) nt by (intro wait_loop_round) auto
  also have "\<dots> = (observed t (polled t (Suc 0) w) (Suc n), polled t (Suc n) (polled t (Suc 0) w))"
  proof (rule Suc.IH)
    show "observed t w (Suc 0) \<noteq> ''COMPLETED''"
      using nt by (simp add: terminal_def)
    show "clock (polled t (Suc 0) w) - start_time + 5 * int n < timeout"
      using Suc.prems(2) by (simp add: clock_polled)
    show "timeout \<le> clock (polled t (Suc 0) w) - start_time + 5 * int (Suc n)"
      using Suc.prems(3) by (simp add: clock_polled)
    show "\<forall>j. 1 \<le> j \<and> j \<le> Suc n \<longrightarrow> \<not> terminal (observed t (polled t (Suc 0) w) j)"
      using Suc.prems(4) by (simp add: observed_Suc)
  qed
  finally show ?case
    by (simp add: observed_Suc polled_Suc)
qed

lemma wait_resolved:
  "resolve_task task_in (sleep 5 w) = (Some t, w0) \<Longrightarrow>
   wait task_in timeout w =
     (Inr (fst (wait_loop t (clock w0) timeout ''UNSUBMITTED'' w0)),
      snd (wait_loop t (clock w0) timeout ''UNSUBMITTED'' w0))"
  by (simp add: wait_def split: prod.splits)

lemma wait_on_terminal:
  assumes r: "resolve_task task_in (sleep 5 w) = (Some t, w0)"
    and k: "1 \<le> k" "5 * (int k - 1) < timeout"
    and before: "\<forall>j. 1 \<le> j \<and> j < k \<longrightarrow> \<not> terminal (observed t w0 j)"
    and at: "terminal (observed t w0 k)"
  shows "wait task_in timeout w = (Inr (observed t w0 k), polled t k w0)"
proof -
  obtain k' where k': "k = Suc k'"
    using k(1) by (cases k) auto
  have "wait_loop t (clock w0) timeout ''UNSUBMITTED'' w0 = (observed t w0 (Suc k'), polled t (Suc k') w0)"
  proof (rule wait_loop_terminal)
    show "''UNSUBMITTED'' \<noteq> ''COMPLETED''" by simp
    show "clock w0 - clock w0 + 5 * int k' < timeout"
      using k(2) k' by simp
    show "\<forall>j. 1 \<le> j \<and> j \<le> k' \<longrightarrow> \<not> terminal (observed t w0 j)"
      using before k' by simp
    show "terminal (observed t w0 (Suc k'))"
      using at k' by simp
  qed
  then show ?thesis
    by (simp add: wait_resolved [OF r] k')
qed

lemma wait_on_timeout:
  assumes r: "resolve_task task_in (sleep 5 w) = (Some t, w0)"
    and pos: "0 < timeout"
    and never: "\<forall>j. 1 \<le> j \<and> 5 * (int j - 1) < timeout \<longrightarrow> \<not> terminal (observed t w0 j)"
  shows "wait task_in timeout w =
         (Inr (observed t w0 (polls_allowed timeout)), polled t (polls_allowed timeout) w0)"
proof -
  obtain n where n: "polls_allowed timeout = Suc n"
    using pos by (cases "polls_allowed timeout") (auto simp: polls_allowed_def)
  have lo: "5 * int n < timeout" and hi: "timeout \<le> 5 * int (Suc n)"
    using n pos by (auto simp: polls_allowed_def)
  have "wait_loop t (clock w0) timeout ''UNSUBMITTED'' w0 = (observed t w0 (Suc n), polled t (Suc n) w0)"
  proof (rule wait_loop_timeout)
    show "''UNSUBMITTED'' \<noteq> ''COMPLETED''" by simp
    show "clock w0 - clock w0 + 5 * int n < timeout"
      using lo by simp
    show "timeout \<le> clock w0 - clock w0 + 5 * int (Suc n)"
      using hi by simp
    show "\<forall>j. 1 \<le> j \<and> j \<le> Suc n \<longrightarrow> \<not> terminal (observed t w0 j)"
    proof (intro allI impI)
      fix j :: nat
      assume j: "1 \<le> j \<and> j \<le> Suc n"
      then have "5 * (int j - 1) < timeout"
        using lo by simp
      with never j show "\<not> terminal (observed t w0 j)"
        by blast
    qed
  qed
  then show ?thesis
    by (simp add: wait_resolved [OF r] n)
qed

text \<open>
  Claim C3, as amended. Let the task of \<open>wait\<close> resolve to \<open>t\<close>, and let the timeout be
  positive. The \<open>k\<close>-th poll is made when no earlier poll saw COMPLETED or FAILED and
  fewer than \<open>timeout\<close> seconds had passed when its round of five seconds began; so
  every poll that falls before the timeout is made, and the last poll may fall up to five
  seconds after it. If a poll that is made sees COMPLETED, \<open>wait\<close> returns COMPLETED; if
  it sees FAILED, \<open>wait\<close> returns FAILED; in both cases it has polled \<open>k\<close> times and
  not once more. If no poll that is made sees COMPLETED or FAILED, \<open>wait\<close> returns the
  state of the last poll, which is not terminal.
\<close>

theorem wait_final_state:
  assumes "resolve_task task_in (sleep 5 w) = (Some t, w0)" and "0 < timeout"
  shows
    "(1 \<le> k \<and> 5 * (int k - 1) < timeout \<and>
      (\<forall>j. 1 \<le> j \<and> j < k \<longrightarrow> \<not> terminal (observed t w0 j)) \<and>
      observed t w0 k = ''COMPLETED'' \<longrightarrow>
        wait task_in timeout w = (Inr ''COMPLETED'', polled t k w0)) \<and>
     (1 \<le> k \<and> 5 * (int k - 1) < timeout \<and>
      (\<forall>j. 1 \<le> j \<and> j < k \<longrightarrow> \<not> terminal (observed t w0 j)) \<and>
      observed t w0 k = ''FAILED'' \<longrightarrow>
        wait task_in timeout w = (Inr ''FAILED'', polled t k w0)) \<and>
     ((\<forall>j. 1 \<le> j \<and> 5 * (int j - 1) < timeout \<longrightarrow> \<not> terminal (observed t w0 j)) \<longrightarrow>
        wait task_in timeout w =
          (Inr (observed t w0 (polls_allowed timeout)), polled t (polls_allowed timeout) w0) \<and>
        1 \<le> polls_allowed timeout \<and>
        \<not> terminal (observed t w0 (polls_allowed timeout)))"
proof (intro conjI impI)
  assume h: "1 \<le> k \<and> 5 * (int k - 1) < timeout \<and>
      (\<forall>j. 1 \<le> j \<and> j < k \<longrightarrow> \<not> terminal (observed t w0 j)) \<and>
      observed t w0 k = ''COMPLETED''"
  then have "wait task_in timeout w = (Inr (observed t w0 k), polled t k w0)"
    by (intro wait_on_terminal [OF assms(1)]) (auto simp: terminal_def)
  with h show "wait task_in timeout w = (Inr ''COMPLETED'', polled t k w0)"
    by simp
next
  assume h: "1 \<le> k \<and> 5 * (int k - 1) < timeout \<and>
      (\<forall>j. 1 \<le> j \<and> j < k \<longrightarrow> \<not> terminal (observed t w0 j)) \<and>
      observed t w0 k = ''FAILED''"
  then have "wait task_in timeout w = (Inr (observed t w0 k), polled t k w0)"
    by (intro wait_on_terminal [OF assms(1)]) (auto simp: terminal_def)
  with h show "wait task_in timeout w = (Inr ''FAILED'', polled t k w0)"
    by simp
next
  assume h: "\<forall>j. 1 \<le> j \<and> 5 * (int j - 1) < timeout \<longrightarrow> \<not> terminal (observed t w0 j)"
  show "wait task_in timeout w =
          (Inr (observed t w0 (polls_allowed timeout)), polled t (polls_allowed timeout) w0)"
    by (rule wait_on_timeout [OF assms h])
  show pa: "1 \<le> polls_allowed timeout"
    using assms(2) by (simp add: polls_allowed_def)
  have "int (polls_allowed timeout) = (timeout + 4) div 5"
    using assms(2) by (simp add: polls_allowed_def)
  moreover have "5 * ((timeout + 4) div 5 - 1) < timeout"
    by presburger
  ultimately have "5 * (int (polls_allowed timeout) - 1) < timeout"
    by simp
  with h pa show "\<not> terminal (observed t w0 (polls_allowed timeout))"
    by blast
qed

theorem wait_final_state_witness:
  "wait (TaskObject (running_until 12 ''COMPLETED'')) 60 empty_account =
     (Inr ''COMPLETED'', polled (running_until 12 ''COMPLETED'') 2 (sleep 5 empty_account)) \<and>
   wait (TaskObject (running_until 12 ''FAILED'')) 60 empty_account =
     (Inr ''FAILED'', polled (running_until 12 ''FAILED'') 2 (sleep 5 empty_account)) \<and>
   wait (TaskObject (running_until 100 ''COMPLETED'')) 12 empty_account =
     (Inr ''RUNNING'', polled (running_until 100 ''COMPLETED'') 3 (sleep 5 empty_account))"
proof -
  let ?w0 = "sleep 5 empty_account"
  have c0: "clock ?w0 = 5"
    by (simp add: sleep_def empty_account_def)
  have a: "1 \<le> (2::nat) \<and> 5 * (int 2 - 1) < 60 \<and>
      (\<forall>j. 1 \<le> j \<and> j < 2 \<longrightarrow> \<not> terminal (observed (running_until 12 ''COMPLETED'') ?w0 j)) \<and>
      observed (running_until 12 ''COMPLETED'') ?w0 2 = ''COMPLETED''"
    by (auto simp: observed_def running_until_def terminal_def c0)
  have b: "1 \<le> (2::nat) \<and> 5 * (int 2 - 1) < 60 \<and>
      (\<forall>j. 1 \<le> j \<and> j < 2 \<longrightarrow> \<not> terminal (observed (running_until 12 ''FAILED'') ?w0 j)) \<and>
      observed (running_until 12 ''FAILED'') ?w0 2 = ''FAILED''"
    by (auto simp: observed_def running_until_def terminal_def c0)
  have c: "\<forall>j. 1 \<le> j \<and> 5 * (int j - 1) < 12 \<longrightarrow>
      \<not> terminal (observed (running_until 100 ''COMPLETED'') ?w0 j)"
    by (auto simp: observed_def running_until_def terminal_def c0)
  have n: "polls_allowed 12 = 3"
    by (simp add: polls_allowed_def)
  have o: "observed (running_until 100 ''COMPLETED'') ?w0 3 = ''RUNNING''"
    by (simp add: observed_def running_until_def c0)
  from a b c n o
    wait_final_state [of "TaskObject (running_until 12 ''COMPLETED'')" empty_account
      "running_until 12 ''COMPLETED''" ?w0 60 2]
    wait_final_state [of "TaskObject (running_until 12 ''FAILED'')" empty_account
      "running_until 12 ''FAILED''" ?w0 60 2]
    wait_final_state [of "TaskObject (running_until 100 ''COMPLETED'')" empty_account
      "running_until 100 ''COMPLETED''" ?w0 12 2]
  show ?thesis
    by simp
qed

text \<open>
  Claim C3 as it is stated has \<open>wait\<close> return the last state that is not terminal
  whenever the timeout elapses before a terminal state is observed. With a timeout of 12
  seconds and a task that completes 14 seconds after the loop starts, the polls 5 and 10
  seconds in see RUNNING, the task is still RUNNING when the timeout elapses, and the third
  round, begun 10 seconds in, polls 15 seconds in: \<open>wait\<close> returns COMPLETED.
\<close>

theorem wait_polls_after_timeout:
  "wait (TaskObject (running_until 19 ''COMPLETED'')) 12 empty_account =
     (Inr ''COMPLETED'', polled (running_until 19 ''COMPLETED'') 3 (sleep 5 empty_account)) \<and>
   observed (running_until 19 ''COMPLETED'') (sleep 5 empty_account) 1 = ''RUNNING'' \<and>
   observed (running_until 19 ''COMPLETED'') (sleep 5 empty_account) 2 = ''RUNNING'' \<and>
   state_at (running_until 19 ''COMPLETED'') (clock (sleep 5 empty_account) + 12) = ''RUNNING'' \<and>
   clock (polled (running_until 19 ''COMPLETED'') 3 (sleep 5 empty_account)) =
     clock (sleep 5 empty_account) + 15"
proof -
  let ?t = "running_until 19 ''COMPLETED''"
  let ?w0 = "sleep 5 empty_account"
  have c0: "clock ?w0 = 5"
    by (simp add: sleep_def empty_account_def)
  have o: "\<And>j. observed ?t ?w0 j = (if 5 + 5 * int j < 19 then ''RUNNING'' else ''COMPLETED'')"
    by (simp add: observed_def running_until_def c0)
  have "wait (TaskObject ?t) 12 empty_account = (Inr (observed ?t ?w0 3), polled ?t 3 ?w0)"
  proof (rule wait_on_terminal)
    show "resolve_task (TaskObject ?t) ?w0 = (Some ?t, ?w0)" by simp
    show "1 \<le> (3::nat)" by simp
    show "5 * (int 3 - 1) < 12" by simp
    show "\<forall>j. 1 \<le> j \<and> j < 3 \<longrightarrow> \<not> terminal (observed ?t ?w0 j)"
      by (auto simp: o terminal_def)
    show "terminal (observed ?t ?w0 3)"
      by (simp add: o terminal_def)
  qed
  then show ?thesis
    by (simp add: o clock_polled c0) (simp add: running_until_def)
qed

text \<open>With a timeout of zero the test of the loop fails at once, whatever the task does.\<close>

lemma wait_timeout_zero: "wait (TaskObject t) 0 w = (Inr ''UNSUBMITTED'', sleep 5 w)"
  by (simp add: wait_def wait_loop_stop)

text \<open>
  Claim C4. The docstring of \<open>wait\<close> says that a timeout of 0 is ignored, so the loop
  should poll until the task is COMPLETED or FAILED. The code does not: on a task that is
  running and completes seven seconds after the loop would start, \<open>wait\<close> with timeout 0
  returns UNSUBMITTED after its first sleep and has sent no request at all.
\<close>

theorem wait_timeout_zero_never_polls:
  "wait (TaskObject (running_until 12 ''COMPLETED'')) 0 empty_account =
     (Inr ''UNSUBMITTED'', empty_account\<lparr>clock := 5\<rparr>) \<and>
   calls (snd (wait (TaskObject (running_until 12 ''COMPLETED'')) 0 empty_account)) = []"
  by (simp add: wait_timeout_zero sleep_def empty_account_def)

lemma get_task_loop_None:
  "\<forall>t\<in>set ts. config_description t \<noteq> d \<Longrightarrow> get_task_loop ts d = None"
  by (induction ts) auto

text \<open>
  Claim C6. When no task of the task list has the description, \<open>wait\<close> raises the
  assertion error after its first sleep; the task list has been asked for once, and no
  status request has been sent.
\<close>

theorem wait_unknown_description:
  assumes "\<forall>t\<in>set (task_list w). config_description t \<noteq> d"
  shows "wait (TaskDescription d) timeout w = (Inl AssertionError, record_call TaskList (sleep 5 w)) \<and>
         calls (snd (wait (TaskDescription d) timeout w)) = calls w @ [TaskList]"
proof -
  have "get_task_loop (task_list (sleep 5 w)) d = None"
    using assms by (intro get_task_loop_None) (simp add: sleep_def)
  then show ?thesis
    by (simp add: wait_def get_task_def Task_list_def record_call_def sleep_def)
qed

theorem wait_unknown_description_witness:
  "wait (TaskDescription ''toto_fc'') 60 (empty_account\<lparr>task_list := [running_until 12 ''COMPLETED'']\<rparr>) =
     (Inl AssertionError,
      empty_account\<lparr>task_list := [running_until 12 ''COMPLETED''], clock := 5, calls := [TaskList]\<rparr>)"
  using wait_unknown_description [of "empty_account\<lparr>task_list := [running_until 12 ''COMPLETED'']\<rparr>"
      "''toto_fc''" 60]
  by (simp add: running_until_def record_call_def sleep_def empty_account_def)

section \<open>Properties of \<open>get_assets\<close>\<close>

lemma forest_height_Cons: "forest_height (t # ts) = max (height t) (forest_height ts)"
  by (simp add: forest_height_def)

lemma height_le_forest: "t \<in> set ts \<Longrightarrow> height t \<le> forest_height ts"
  by (induction ts) (auto simp: forest_height_Cons)

lemma recursive_get_loop_forest:
  assumes step: "\<And>t rest acc. t \<in> set ts \<Longrightarrow>
      recursive_get_loop n w (root_asset t # rest) acc = recursive_get_loop n w rest (acc @ preorder t)"
  shows "recursive_get_loop n w (map root_asset ts @ rest) acc =
         recursive_get_loop n w rest (acc @ concat (map preorder ts))"
  using step by (induction ts arbitrary: acc) auto

lemma recursive_get_loop_tree:
  "stored w t \<Longrightarrow> height t \<le> n \<Longrightarrow>
   recursive_get_loop n w (root_asset t # rest) acc = recursive_get_loop n w rest (acc @ preorder t)"
proof (induction t arbitrary: n rest acc)
  case (Node a cs)
  show ?case
  proof (cases "a_type a = ''FOLDER''")
    case False
    with Node.prems show ?thesis by simp
  next
    case True
    with Node.prems obtain m where m: "n = Suc m" and hm: "forest_height cs \<le> m"
      by (cases n) (auto simp: forest_height_def)
    have ls: "list_assets w (a_name a) = Some (map root_asset cs)"
      using Node.prems True by simp
    have "recursive_get_loop m w (map root_asset cs @ []) (acc @ [a]) =
          recursive_get_loop m w [] ((acc @ [a]) @ concat (map preorder cs))"
    proof (rule recursive_get_loop_forest)
      fix t rest' acc'
      assume t: "t \<in> set cs"
      then have "stored w t" "height t \<le> m"
        using Node.prems True hm height_le_forest [OF t] by auto
      then show "recursive_get_loop m w (root_asset t # rest') acc' =
                 recursive_get_loop m w rest' (acc' @ preorder t)"
        by (rule Node.IH [OF t])
    qed
    then have "recursive_get n w (a_name a) (acc @ [a]) = Inr (acc @ a # concat (map preorder cs))"
      by (simp add: m ls)
    with True show ?thesis by simp
  qed
qed

lemma recursive_get_hosts:
  assumes "hosts w folder ts" and "forest_height ts < n"
  shows "recursive_get n w folder acc = Inr (acc @ concat (map preorder ts))"
proof -
  obtain m where m: "n = Suc m" and hm: "forest_height ts \<le> m"
    using assms(2) by (cases n) auto
  have "recursive_get_loop m w (map root_asset ts @ []) acc =
        recursive_get_loop m w [] (acc @ concat (map preorder ts))"
  proof (rule recursive_get_loop_forest)
    fix t rest' acc'
    assume t: "t \<in> set ts"
    then have "stored w t" "height t \<le> m"
      using assms(1) hm height_le_forest [OF t] by (auto simp: hosts_def)
    then show "recursive_get_loop m w (root_asset t # rest') acc' =
               recursive_get_loop m w rest' (acc' @ preorder t)"
      by (rule recursive_get_loop_tree)
  qed
  then show ?thesis
    using assms(1) by (simp add: m hosts_def)
qed

text \<open>
  Claim C8. When the platform holds the trees \<open>ts\<close> under the folder and the folders nest
  less deep than the interpreter allows calls, \<open>get_assets\<close> returns the assets of the
  trees in pre-order: every asset, then what is listed under it if it is a folder, then its
  next sibling, the siblings in the order of the listing. Under a folder with no asset the
  result is the empty list.
\<close>

theorem get_assets_preorder:
  assumes "hosts w (to_str folder) ts" and "forest_height ts < recursion_limit w"
  shows "get_assets folder w = Inr (concat (map preorder ts))"
  using recursive_get_hosts [OF assms, of "[]"] by (simp add: get_assets_def)

lemma hosts_toto: "hosts toto_account ''users/bob/toto'' toto_trees"
  by (simp add: hosts_def toto_account_def toto_trees_def folder_1_def image_asset_def fc_asset_def)

lemma hosts_empty: "hosts toto_account ''users/bob/empty'' []"
  by (simp add: hosts_def toto_account_def)

lemma height_toto: "forest_height toto_trees = 1"
  by (simp add: forest_height_def toto_trees_def folder_1_def image_asset_def fc_asset_def)

lemma limit_toto: "recursion_limit toto_account = 1000"
  by (simp add: toto_account_def empty_account_def)

theorem get_assets_preorder_witness:
  "get_assets (Str ''users/bob/toto'') toto_account = Inr [folder_1, image_asset, fc_asset] \<and>
   get_assets (Str ''users/bob/empty'') toto_account = Inr []"
  using get_assets_preorder [of toto_account "Str ''users/bob/toto''" toto_trees]
    get_assets_preorder [of toto_account "Str ''users/bob/empty''" "[]"]
    hosts_toto hosts_empty
  by (simp add: height_toto limit_toto) (simp add: toto_trees_def forest_height_def)

section \<open>Properties of \<open>delete_assets\<close>\<close>

lemma map_of_setdefault_append:
  "map_of (setdefault_append d lvl a) =
     (map_of d)(lvl \<mapsto> (case map_of d lvl of None \<Rightarrow> [a] | Some v \<Rightarrow> v @ [a]))"
  by (induction d lvl a rule: setdefault_append.induct) (auto simp: fun_eq_iff)

lemma keys_setdefault_append:
  "fst ` set (setdefault_append d lvl a) = insert lvl (fst ` set d)"
  by (induction d lvl a rule: setdefault_append.induct) auto

lemma distinct_setdefault_append:
  "distinct (map fst d) \<Longrightarrow> distinct (map fst (setdefault_append d lvl a))"
  by (induction d lvl a rule: setdefault_append.induct) (auto simp: keys_setdefault_append)

lemma levels_of_setdefault_append:
  assumes "levels_of xs d"
  shows "levels_of (xs @ [a]) (setdefault_append d (nesting_level a) a)"
  using assms
  by (auto simp: levels_of_def map_of_setdefault_append distinct_setdefault_append)

lemma levels_of_split_levels:
  "levels_of xs0 d \<Longrightarrow> levels_of (xs0 @ xs) (split_levels xs d)"
proof (induction xs arbitrary: xs0 d)
  case Nil
  then show ?case by simp
next
  case (Cons a xs)
  from Cons.IH [OF levels_of_setdefault_append [OF Cons.prems, of a]]
  show ?case by (simp add: nesting_level_def)
qed

lemma levels_of_sorted_reverse: "levels_of xs d \<Longrightarrow> levels_of xs (sorted_reverse d)"
proof -
  assume a: "levels_of xs d"
  have d: "distinct (map fst (sorted_reverse d))"
    using a by (simp add: levels_of_def sorted_reverse_def distinct_map)
  have "map_of (sorted_reverse d) = map_of d"
    using a d by (intro map_of_inject_set [THEN iffD2]) (auto simp: levels_of_def sorted_reverse_def)
  with a d show ?thesis
    by (simp add: levels_of_def)
qed

lemma filter_level_concat:
  "distinct (map fst d) \<Longrightarrow>
   (\<forall>(k, v)\<in>set d. v = filter (\<lambda>a. nesting_level a = k) xs) \<Longrightarrow>
   filter (\<lambda>a. nesting_level a = l) (concat (map snd d)) =
     (if l \<in> fst ` set d then filter (\<lambda>a. nesting_level a = l) xs else [])"
proof (induction d)
  case Nil
  then show ?case by simp
next
  case (Cons kv d)
  obtain k v where kv: "kv = (k, v)" by (cases kv)
  have v: "v = filter (\<lambda>a. nesting_level a = k) xs"
    using Cons.prems(2) kv by simp
  have ih: "filter (\<lambda>a. nesting_level a = l) (concat (map snd d)) =
     (if l \<in> fst ` set d then filter (\<lambda>a. nesting_level a = l) xs else [])"
    using Cons by simp
  have hd: "filter (\<lambda>a. nesting_level a = l) v =
     (if l = k then filter (\<lambda>a. nesting_level a = l) xs else [])"
    by (subst v) (auto simp: filter_empty_conv intro: filter_cong)
  have nk: "k \<notin> fst ` set d"
    using Cons.prems(1) kv by simp
  show ?case
    using ih hd nk by (auto simp: kv)
qed

lemma levels_of_filter:
  assumes "levels_of xs d"
  shows "filter (\<lambda>a. nesting_level a = l) (concat (map snd d)) = filter (\<lambda>a. nesting_level a = l) xs"
proof -
  have dist: "distinct (map fst d)"
    using assms by (simp add: levels_of_def)
  have grp: "\<forall>(k, v)\<in>set d. v = filter (\<lambda>a. nesting_level a = k) xs"
  proof (clarify)
    fix k v assume "(k, v) \<in> set d"
    then have "map_of d k = Some v"
      using dist by simp
    then show "v = filter (\<lambda>a. nesting_level a = k) xs"
      using assms by (auto simp: levels_of_def split: if_splits)
  qed
  have keys: "l \<in> fst ` set d \<longleftrightarrow> (\<exists>a\<in>set xs. nesting_level a = l)"
  proof -
    have "l \<in> fst ` set d \<longleftrightarrow> map_of d l \<noteq> None"
      by (simp add: map_of_eq_None_iff)
    then show ?thesis
      using assms by (simp add: levels_of_def)
  qed
  show ?thesis
    unfolding filter_level_concat [OF dist grp] keys
    by (auto simp: filter_empty_conv)
qed

lemma sorted_same_level:
  "\<forall>a\<in>set v. nesting_level a = k \<Longrightarrow> sorted (map (\<lambda>a. - int (nesting_level a)) v)"
  by (induction v) auto

lemma sorted_concat_levels:
  "sorted (map (\<lambda>item. - int (fst item)) d) \<Longrightarrow>
   (\<forall>(k, v)\<in>set d. \<forall>a\<in>set v. nesting_level a = k) \<Longrightarrow>
   sorted (map (\<lambda>a. - int (nesting_level a)) (concat (map snd d)))"
proof (induction d)
  case Nil
  then show ?case by simp
next
  case (Cons kv d)
  obtain k v where kv: "kv = (k, v)" by (cases kv)
  have v: "\<forall>a\<in>set v. nesting_level a = k"
    using Cons.prems(2) kv by simp
  have later: "\<forall>item\<in>set d. fst item \<le> k"
    using Cons.prems(1) kv by simp
  have rest: "\<forall>b\<in>set (concat (map snd d)). nesting_level b \<le> k"
  proof
    fix b assume "b \<in> set (concat (map snd d))"
    then obtain k' v' where m: "(k', v') \<in> set d" and b: "b \<in> set v'"
      by auto
    from m Cons.prems(2) b have "nesting_level b = k'"
      by auto
    moreover from m later have "k' \<le> k"
      by auto
    ultimately show "nesting_level b \<le> k"
      by simp
  qed
  have ih: "sorted (map (\<lambda>a. - int (nesting_level a)) (concat (map snd d)))"
    using Cons by simp
  show ?case
    using ih sorted_same_level [OF v] v rest
    by (simp add: kv sorted_append)
qed

lemma concat_sorted_levels:
  assumes "levels_of xs d" and "sorted (map (\<lambda>item. - int (fst item)) d)"
  shows "concat (map snd d) = deepest_first xs"
proof -
  let ?ys = "concat (map snd d)"
  let ?f = "\<lambda>a. - int (nesting_level a)"
  have flt: "\<And>l. filter (\<lambda>a. nesting_level a = l) ?ys = filter (\<lambda>a. nesting_level a = l) xs"
    by (rule levels_of_filter [OF assms(1)])
  have m: "mset ?ys = mset xs"
  proof (rule multiset_eqI)
    fix a
    have "count (mset ?ys) a = count (mset (filter (\<lambda>b. nesting_level b = nesting_level a) ?ys)) a"
      by simp
    also have "\<dots> = count (mset (filter (\<lambda>b. nesting_level b = nesting_level a) xs)) a"
      by (simp only: flt)
    also have "\<dots> = count (mset xs) a"
      by simp
    finally show "count (mset ?ys) a = count (mset xs) a" .
  qed
  have st: "\<And>k. k \<in> set ?ys \<Longrightarrow> filter (\<lambda>x. ?f k = ?f x) ?ys = filter (\<lambda>x. ?f k = ?f x) xs"
  proof -
    fix k
    have "(\<lambda>x. ?f k = ?f x) = (\<lambda>x. nesting_level x = nesting_level k)"
      by auto
    then show "filter (\<lambda>x. ?f k = ?f x) ?ys = filter (\<lambda>x. ?f k = ?f x) xs"
      by (simp only: flt)
  qed
  have grp: "\<forall>(k, v)\<in>set d. \<forall>a\<in>set v. nesting_level a = k"
  proof (clarify)
    fix k v a assume kv: "(k, v) \<in> set d" and a: "a \<in> set v"
    have "distinct (map fst d)"
      using assms(1) by (simp add: levels_of_def)
    then have "map_of d k = Some v"
      using kv by simp
    then have "v = filter (\<lambda>a. nesting_level a = k) xs"
      using assms(1) by (auto simp: levels_of_def split: if_splits)
    with a show "nesting_level a = k" by simp
  qed
  have so: "sorted (map ?f ?ys)"
    by (rule sorted_concat_levels [OF assms(2) grp])
  show ?thesis
    unfolding deepest_first_def
    by (rule properties_for_sort_key [OF m st so, symmetric])
qed

lemma levels_of_empty: "levels_of [] []"
  by (simp add: levels_of_def)

lemma delete_order:
  "concat (map snd (sorted_reverse (split_levels xs []))) = deepest_first xs"
proof -
  have "levels_of xs (sorted_reverse (split_levels xs []))"
    using levels_of_split_levels [OF levels_of_empty, of xs]
    by (simp add: levels_of_sorted_reverse)
  moreover have "sorted (map (\<lambda>item. - int (fst item)) (sorted_reverse (split_levels xs [])))"
    by (simp add: sorted_reverse_def)
  ultimately show ?thesis
    by (rule concat_sorted_levels)
qed

lemma deleted_Nil: "deleted [] w = w"
  by (simp add: deleted_def)

lemma deleted_deleted: "deleted ys (deleted xs w) = deleted (xs @ ys) w"
  by (simp add: deleted_def)

lemma delete_dry: "delete True ident (out, w) = (Inr (), out @ [ident], w)"
  by (simp add: delete_def)

lemma delete_returns:
  "delete dry_run ident (out, w) = (Inr u, out', w') \<Longrightarrow>
   out' = out @ [ident] \<and> w' = (if dry_run then w else deleted [ident] w)"
  by (auto simp: delete_def submit_def deleted_def record_call_def split: if_splits)

lemma delete_level_dry:
  "delete_level True xs (out, w) = (Inr (), out @ map a_name xs, w)"
  by (induction xs arbitrary: out) (simp_all add: delete_dry)

lemma delete_levels_dry:
  "delete_levels True d (out, w) = (Inr (), out @ map a_name (concat (map snd d)), w)"
  by (induction d arbitrary: out) (auto simp: delete_level_dry)

lemma delete_level_returns:
  "delete_level dry_run xs (out, w) = (Inr u, out', w') \<Longrightarrow>
   out' = out @ map a_name xs \<and>
   w' = (if dry_run then w else deleted (map a_name xs) w)"
proof (induction xs arbitrary: out w)
  case Nil
  then show ?case by (simp add: deleted_Nil)
next
  case (Cons i rest)
  from Cons.prems obtain o1 w1 where
    d: "delete dry_run (a_name i) (out, w) = (Inr (), o1, w1)" and
    r: "delete_level dry_run rest (o1, w1) = (Inr u, out', w')"
    by (auto split: prod.splits sum.splits)
  from delete_returns [OF d] Cons.IH [OF r] show ?case
    by (simp add: deleted_deleted)
qed

lemma delete_levels_returns:
  "delete_levels dry_run d (out, w) = (Inr u, out', w') \<Longrightarrow>
   out' = out @ map a_name (concat (map snd d)) \<and>
   w' = (if dry_run then w else deleted (map a_name (concat (map snd d))) w)"
proof (induction d arbitrary: out w)
  case Nil
  then show ?case by (simp add: deleted_Nil)
next
  case (Cons kv d)
  obtain lvl assets where kv: "kv = (lvl, assets)" by (cases kv)
  from Cons.prems obtain o1 w1 where
    l: "delete_level dry_run assets (out, w) = (Inr (), o1, w1)" and
    r: "delete_levels dry_run d (o1, w1) = (Inr u, out', w')"
    by (auto simp: kv split: prod.splits sum.splits)
  from delete_level_returns [OF l] Cons.IH [OF r] show ?case
    by (simp add: kv deleted_deleted)
qed

text \<open>What \<open>delete_assets\<close> has done when it returns.\<close>

lemma delete_assets_returns:
  assumes "delete_assets asset_id dry_run w = (Inr out, w')"
  shows "\<exists>info listed. asset_info w (to_str asset_id) = Some info \<and>
           (if a_type info = ''FOLDER''
            then get_assets (Str (to_str asset_id)) w = Inr listed
            else listed = []) \<and>
           out = map a_name (deepest_first listed) @ [to_str asset_id] \<and>
           w' = (if dry_run then w else deleted out w)"
proof -
  from assms obtain info where info: "asset_info w (to_str asset_id) = Some info"
    by (auto simp: delete_assets_def split: option.splits)
  show ?thesis
  proof (cases "a_type info = ''FOLDER''")
    case False
    with assms info have "delete dry_run (to_str asset_id) ([], w) = (Inr (), out, w')"
      by (auto simp: delete_assets_def split: prod.splits sum.splits)
    from delete_returns [OF this] info False show ?thesis
      by (auto simp: deepest_first_def)
  next
    case True
    with assms info obtain listed where
      listed: "get_assets (Str (to_str asset_id)) w = Inr listed"
      by (auto simp: delete_assets_def split: sum.splits prod.splits)
    with assms info True obtain o1 w1 where
      l: "delete_levels dry_run (sorted_reverse (split_levels listed [])) ([], w) = (Inr (), o1, w1)" and
      d: "delete dry_run (to_str asset_id) (o1, w1) = (Inr (), out, w')"
      by (auto simp: delete_assets_def split: prod.splits sum.splits)
    from delete_levels_returns [OF l] delete_returns [OF d] info True listed show ?thesis
      by (auto simp: delete_order deleted_deleted)
  qed
qed

lemma delete_assets_dry_world: "snd (delete_assets asset_id True w) = w"
  by (auto simp: delete_assets_def delete_levels_dry delete_dry split: option.splits sum.splits)

subsection \<open>The test account\<close>

lemma get_assets_toto:
  "get_assets (Str ''users/bob/toto'') toto_account = Inr [folder_1, image_asset, fc_asset]"
  using recursive_get_hosts [OF hosts_toto, of 1000 "[]"]
  by (simp add: get_assets_def height_toto limit_toto) (simp add: toto_trees_def)

lemma levels_toto:
  "nesting_level folder_1 = 4" "nesting_level image_asset = 5" "nesting_level fc_asset = 5"
  by (simp_all add: nesting_level_def split_def folder_1_def image_asset_def fc_asset_def)

lemma deepest_first_toto:
  "deepest_first [folder_1, image_asset, fc_asset] = [image_asset, fc_asset, folder_1]"
  by (simp add: deepest_first_def levels_toto)

lemma info_toto:
  "asset_info toto_account ''users/bob/toto'' = Some toto_folder"
  "asset_info toto_account ''users/bob/toto/folder_1/image'' = Some image_asset"
  by (simp_all add: toto_account_def)

lemma delete_assets_dry_folder:
  assumes "asset_info w (to_str folder) = Some info" and "a_type info = ''FOLDER''"
    and "get_assets (Str (to_str folder)) w = Inr assets"
  shows "delete_assets folder True w = (Inr (map a_name (deepest_first assets) @ [to_str folder]), w)"
  using assms by (simp add: delete_assets_def delete_levels_dry delete_dry delete_order)

lemma type_toto: "a_type toto_folder = ''FOLDER''"
  by (simp add: toto_folder_def)

lemma delete_assets_dry_toto:
  "delete_assets (Str ''users/bob/toto'') True toto_account =
     (Inr [a_name image_asset, a_name fc_asset, a_name folder_1, ''users/bob/toto''], toto_account)"
  using delete_assets_dry_folder [of toto_account "Str ''users/bob/toto''" toto_folder
      "[folder_1, image_asset, fc_asset]"]
  by (simp add: info_toto get_assets_toto deepest_first_toto type_toto)

lemma names_toto:
  "a_name image_asset = ''projects/earthengine-legacy/assets/users/bob/toto/folder_1/image''"
  "a_name fc_asset = ''projects/earthengine-legacy/assets/users/bob/toto/folder_1/fc''"
  "a_name folder_1 = ''projects/earthengine-legacy/assets/users/bob/toto/folder_1''"
  "a_id image_asset = ''users/bob/toto/folder_1/image''"
  by (simp_all add: image_asset_def fc_asset_def folder_1_def)

lemma split_levels_toto:
  "split_levels [folder_1, image_asset, fc_asset] [] =
     [(4, [folder_1]), (5, [image_asset, fc_asset])]"
  by (simp add: levels_toto [unfolded nesting_level_def])

lemma sorted_reverse_toto:
  "sorted_reverse [(4, [folder_1]), (5, [image_asset, fc_asset])] =
     [(5, [image_asset, fc_asset]), (4, [folder_1])]"
  by (simp add: sorted_reverse_def)

lemma toto_takes_all: "refuses toto_account h r = False"
  by (simp add: toto_account_def empty_account_def)

lemma submit_toto:
  "submit r (toto_account\<lparr>calls := c\<rparr>) = (Inr (), toto_account\<lparr>calls := c @ [r]\<rparr>)"
  by (simp add: submit_def record_call_def toto_takes_all)

lemma calls_toto: "toto_account\<lparr>calls := []\<rparr> = toto_account"
  by (simp add: toto_account_def empty_account_def)

lemma delete_assets_real_toto:
  "delete_assets (Str ''users/bob/toto'') False toto_account =
     (Inr [a_name image_asset, a_name fc_asset, a_name folder_1, ''users/bob/toto''],
      toto_account\<lparr>calls := [DeleteAsset (a_name image_asset), DeleteAsset (a_name fc_asset),
                               DeleteAsset (a_name folder_1), DeleteAsset ''users/bob/toto'']\<rparr>)"
proof -
  have "delete_assets (Str ''users/bob/toto'') False (toto_account\<lparr>calls := []\<rparr>) =
     (Inr [a_name image_asset, a_name fc_asset, a_name folder_1, ''users/bob/toto''],
      toto_account\<lparr>calls := [DeleteAsset (a_name image_asset), DeleteAsset (a_name fc_asset),
                               DeleteAsset (a_name folder_1), DeleteAsset ''users/bob/toto'']\<rparr>)"
    unfolding calls_toto
    by (simp add: delete_assets_def info_toto get_assets_toto type_toto split_levels_toto
        sorted_reverse_toto del: split_levels.simps)
       (simp add: delete_def submit_toto [of _ "[]", unfolded calls_toto] submit_toto)
  then show ?thesis
    by (simp only: calls_toto)
qed

lemma type_image: "a_type image_asset \<noteq> ''FOLDER''"
  by (simp add: image_asset_def)

lemma delete_assets_image:
  "delete_assets (Str ''users/bob/toto/folder_1/image'') False toto_account =
     (Inr [''users/bob/toto/folder_1/image''],
      toto_account\<lparr>calls := [DeleteAsset ''users/bob/toto/folder_1/image'']\<rparr>)"
  by (simp add: delete_assets_def info_toto type_image delete_def
      submit_toto [of _ "[]", unfolded calls_toto])

subsection \<open>The claims\<close>

text \<open>
  Claim C1, as amended. For a folder whose recursive listing yields the list \<open>assets\<close>,
  \<open>delete_assets\<close> in dry-run mode leaves the platform as it is and returns the names
  (the key \<open>name\<close>) of those assets, each as often as it is listed, followed by the
  folder id it was given. The names stand in the order of the nesting level of the id of
  their asset (the key \<open>id\<close>, counted in path segments), deepest first: no asset stands
  before an asset of a deeper level.
\<close>

theorem delete_assets_dry_run_order:
  assumes "asset_info w (to_str folder) = Some info" and "a_type info = ''FOLDER''"
    and "get_assets (Str (to_str folder)) w = Inr assets"
  shows "delete_assets folder True w =
           (Inr (map a_name (deepest_first assets) @ [to_str folder]), w) \<and>
         mset (deepest_first assets) = mset assets \<and>
         sorted_wrt (\<lambda>a b. nesting_level b \<le> nesting_level a) (deepest_first assets)"
proof -
  have "sorted (map (\<lambda>a. - int (nesting_level a)) (deepest_first assets))"
    by (simp add: deepest_first_def)
  then have "sorted_wrt (\<lambda>a b. nesting_level b \<le> nesting_level a) (deepest_first assets)"
    by (simp add: sorted_map sorted_wrt_iff_nth_less)
  moreover have "delete_assets folder True w =
           (Inr (map a_name (deepest_first assets) @ [to_str folder]), w)"
    using assms by (simp add: delete_assets_def delete_levels_dry delete_dry delete_order)
  ultimately show ?thesis
    by (simp add: deepest_first_def)
qed

theorem delete_assets_dry_run_order_witness:
  "delete_assets (Str ''users/bob/toto'') True toto_account =
     (Inr [a_name image_asset, a_name fc_asset, a_name folder_1, ''users/bob/toto''], toto_account)"
  using delete_assets_dry_run_order [of toto_account "Str ''users/bob/toto''" toto_folder
      "[folder_1, image_asset, fc_asset]"]
  by (simp add: info_toto get_assets_toto deepest_first_toto type_toto)

text \<open>
  Claim C1 as it is stated speaks of the ids of the listed assets. On the test account the
  dry run returns the names of the three assets under \<open>users/bob/toto\<close>; the id of
  the image is not in the list.
\<close>

theorem delete_assets_returns_names:
  "get_assets (Str ''users/bob/toto'') toto_account = Inr [folder_1, image_asset, fc_asset] \<and>
   fst (delete_assets (Str ''users/bob/toto'') True toto_account) =
     Inr [''projects/earthengine-legacy/assets/users/bob/toto/folder_1/image'',
          ''projects/earthengine-legacy/assets/users/bob/toto/folder_1/fc'',
          ''projects/earthengine-legacy/assets/users/bob/toto/folder_1'',
          ''users/bob/toto''] \<and>
   a_id image_asset = ''users/bob/toto/folder_1/image'' \<and>
   a_id image_asset \<notin>
     set [''projects/earthengine-legacy/assets/users/bob/toto/folder_1/image'',
          ''projects/earthengine-legacy/assets/users/bob/toto/folder_1/fc'',
          ''projects/earthengine-legacy/assets/users/bob/toto/folder_1'',
          ''users/bob/toto'']"
  by (simp add: get_assets_toto delete_assets_dry_toto names_toto)

text \<open>
  Claim C2. A dry run leaves the platform as it was, whatever the path and whether the
  call returns or raises. When a call that is not a dry run returns a list, the platform
  has received one delete request for every entry of the list, in the order of the list,
  and nothing else.
\<close>

theorem delete_assets_requests:
  "snd (delete_assets asset_id True w) = w \<and>
   (delete_assets asset_id False w = (Inr out, w') \<longrightarrow>
      w' = w\<lparr>calls := calls w @ map DeleteAsset out\<rparr>)"
proof (intro conjI impI)
  show "snd (delete_assets asset_id True w) = w"
    by (rule delete_assets_dry_world)
  assume "delete_assets asset_id False w = (Inr out, w')"
  from delete_assets_returns [OF this] show "w' = w\<lparr>calls := calls w @ map DeleteAsset out\<rparr>"
    by (auto simp: deleted_def)
qed

theorem delete_assets_requests_witness:
  "snd (delete_assets (Str ''users/bob/toto'') True toto_account) = toto_account \<and>
   snd (delete_assets (Str ''users/bob/toto'') False toto_account) =
     toto_account\<lparr>calls := map DeleteAsset
       [a_name image_asset, a_name fc_asset, a_name folder_1, ''users/bob/toto'']\<rparr>"
  using delete_assets_requests [of "Str ''users/bob/toto''" toto_account
      "[a_name image_asset, a_name fc_asset, a_name folder_1, ''users/bob/toto'']"
      "toto_account\<lparr>calls := [DeleteAsset (a_name image_asset), DeleteAsset (a_name fc_asset),
                               DeleteAsset (a_name folder_1), DeleteAsset ''users/bob/toto'']\<rparr>"]
  by (simp add: delete_assets_real_toto)

text \<open>
  Claim C10. In both modes a list that \<open>delete_assets\<close> returns is not empty and ends
  with the path it was given (as a string); for an asset that is not a folder the list is
  that path alone.
\<close>

theorem delete_assets_last:
  assumes "delete_assets asset_id dry_run w = (Inr out, w')"
  shows "out \<noteq> [] \<and> last out = to_str asset_id \<and>
         ((\<exists>info. asset_info w (to_str asset_id) = Some info \<and> a_type info \<noteq> ''FOLDER'') \<longrightarrow>
            out = [to_str asset_id])"
  using delete_assets_returns [OF assms] by (auto simp: deepest_first_def)

theorem delete_assets_last_witness:
  "fst (delete_assets (Str ''users/bob/toto/folder_1/image'') False toto_account) =
     Inr [''users/bob/toto/folder_1/image''] \<and>
   fst (delete_assets (Str ''users/bob/toto'') True toto_account) =
     Inr [a_name image_asset, a_name fc_asset, a_name folder_1, ''users/bob/toto''] \<and>
   last [a_name image_asset, a_name fc_asset, a_name folder_1, ''users/bob/toto''] = ''users/bob/toto''"
  using delete_assets_last [of "Str ''users/bob/toto/folder_1/image''" False toto_account
      "[''users/bob/toto/folder_1/image'']"
      "toto_account\<lparr>calls := [DeleteAsset ''users/bob/toto/folder_1/image'']\<rparr>"]
    delete_assets_last [of "Str ''users/bob/toto''" True toto_account
      "[a_name image_asset, a_name fc_asset, a_name folder_1, ''users/bob/toto'']" toto_account]
  by (simp add: delete_assets_image delete_assets_dry_toto)

section \<open>Properties of \<open>export_asset\<close>\<close>

lemma start_accepted:
  "\<not> refuses w (calls w) r \<Longrightarrow> start r d w = (Inr (), started w r d)"
  by (simp add: start_def submit_def started_def started_task_def record_call_def)

lemma record_call_sleep: "record_call r (sleep s w) = sleep s (record_call r w)"
  by (cases w) (simp add: record_call_def sleep_def)

lemma task_list_started: "task_list (sleep s (started w r d)) = started_task w r d # task_list w"
  by (simp add: started_def sleep_def record_call_def)

lemma wait_started:
  "wait (TaskDescription d) timeout (started w r d) =
   wait (TaskObject (started_task w r d)) timeout (record_call TaskList (started w r d))"
proof -
  have "get_task d (sleep 5 (started w r d)) =
        (Some (started_task w r d), sleep 5 (record_call TaskList (started w r d)))"
    by (simp add: get_task_def Task_list_def task_list_started record_call_sleep)
       (simp add: started_task_def)
  then show ?thesis
    by (simp add: wait_def)
qed

lemma wait_task_object:
  "wait (TaskObject t) timeout w =
     (Inr (fst (wait_loop t (clock w + 5) timeout ''UNSUBMITTED'' (sleep 5 w))),
      snd (wait_loop t (clock w + 5) timeout ''UNSUBMITTED'' (sleep 5 w)))"
  by (simp add: wait_def sleep_def split: prod.splits)

lemma wait_loop_polled: "\<exists>k. snd (wait_loop t start_time timeout state w) = polled t k w"
proof (induction t start_time timeout state w rule: wait_loop.induct)
  case (1 t start_time timeout state w)
  show ?case
  proof (cases "state \<noteq> ''COMPLETED'' \<and> clock w - start_time < timeout")
    case False
    then have "snd (wait_loop t start_time timeout state w) = polled t 0 w"
      by (subst wait_loop.simps) (auto simp: polled_def)
    then show ?thesis ..
  next
    case True
    show ?thesis
    proof (cases "observed t w (Suc 0) = ''FAILED''")
      case f: True
      with True have "snd (wait_loop t start_time timeout state w) = polled t (Suc 0) w"
        by (subst wait_loop.simps) (simp add: poll_step)
      then show ?thesis ..
    next
      case False
      from "1.IH" [OF True poll_step [symmetric] False]
      obtain k where "snd (wait_loop t start_time timeout (observed t w (Suc 0)) (polled t (Suc 0) w)) =
          polled t k (polled t (Suc 0) w)" ..
      with True False have "snd (wait_loop t start_time timeout state w) = polled t (Suc k) w"
        by (subst wait_loop.simps) (simp add: poll_step polled_Suc)
      then show ?thesis ..
    qed
  qed
qed

lemma changes_polled: "changes (polled t k w) = changes w"
  by (induction k) (simp_all add: changes_def polled_def replicate_append_same [symmetric]
      del: replicate_Suc)

lemma refuses_polled: "refuses (polled t k w) = refuses w"
  by (simp add: polled_def)

lemma wait_task_object_frame:
  "\<exists>state w'. wait (TaskObject t) timeout w = (Inr state, w') \<and>
      changes w' = changes w \<and> refuses w' = refuses w"
proof -
  obtain k where "snd (wait_loop t (clock w + 5) timeout ''UNSUBMITTED'' (sleep 5 w)) =
      polled t k (sleep 5 w)"
    using wait_loop_polled ..
  then show ?thesis
    by (simp add: wait_task_object changes_polled refuses_polled) (simp add: changes_def sleep_def)
qed

lemma export_asset_started:
  assumes "to_asset object description (to_str asset_id) = Some r"
    and "\<not> refuses w (calls w) r"
  shows "export_asset object asset_id description w =
           (Inr (PurePosixPath (to_str asset_id)),
            snd (wait (TaskObject (started_task w r description)) 60
                   (record_call TaskList (started w r description))))"
proof -
  obtain state w' where
    "wait (TaskObject (started_task w r description)) 60
       (record_call TaskList (started w r description)) = (Inr state, w')"
    using wait_task_object_frame by blast
  then show ?thesis
    using assms by (simp add: export_asset_def start_accepted wait_started)
qed

lemma wait_started_toto:
  assumes "r = ExportImage obj d p \<or> r = ExportTable obj d p"
  shows "wait (TaskObject (started_task empty_account r d)) 60
           (record_call TaskList (started empty_account r d)) =
         (Inr ''COMPLETED'',
          polled (started_task empty_account r d) 3
            (sleep 5 (record_call TaskList (started empty_account r d))))"
proof -
  let ?t = "started_task empty_account r d"
  let ?w0 = "sleep 5 (record_call TaskList (started empty_account r d))"
  have c0: "clock ?w0 = 5"
    by (simp add: sleep_def record_call_def started_def empty_account_def)
  have o: "\<And>j. observed ?t ?w0 j = (if 5 + 5 * int j < 20 then ''RUNNING'' else ''COMPLETED'')"
    by (simp add: observed_def c0) (simp add: started_task_def empty_account_def)
  have "wait (TaskObject ?t) 60 (record_call TaskList (started empty_account r d)) =
        (Inr (observed ?t ?w0 3), polled ?t 3 ?w0)"
  proof (rule wait_on_terminal)
    show "resolve_task (TaskObject ?t) ?w0 = (Some ?t, ?w0)" by simp
    show "1 \<le> (3::nat)" by simp
    show "5 * (int 3 - 1) < 60" by simp
    show "\<forall>j. 1 \<le> j \<and> j < 3 \<longrightarrow> \<not> terminal (observed ?t ?w0 j)"
      by (auto simp: o terminal_def)
    show "terminal (observed ?t ?w0 3)"
      by (simp add: o terminal_def)
  qed
  then show ?thesis
    by (simp add: o)
qed

lemma empty_account_takes_all: "refuses empty_account h r = False"
  by (simp add: empty_account_def)

text \<open>
  Claim C5. An object that is neither a feature collection nor an image makes
  \<open>export_asset\<close> raise \<open>ValueError\<close> with the platform untouched: no task has been
  started. For a feature collection or an image whose task the platform takes,
  \<open>export_asset\<close> starts the table or image export with the description and the asset
  id, waits with the default timeout of 60 seconds on the task it has started (found
  through one request of the task list), and returns the asset path.
\<close>

theorem export_asset_dispatch:
  "export_asset (Computed x) asset_id description w = (Inl ValueError, w) \<and>
   (\<not> refuses w (calls w) (ExportTable (FeatureCollection x) description (to_str asset_id)) \<longrightarrow>
      export_asset (FeatureCollection x) asset_id description w =
        (Inr (PurePosixPath (to_str asset_id)),
         snd (wait (TaskObject
                 (started_task w (ExportTable (FeatureCollection x) description (to_str asset_id))
                    description)) 60
               (record_call TaskList
                 (started w (ExportTable (FeatureCollection x) description (to_str asset_id))
                    description))))) \<and>
   (\<not> refuses w (calls w) (ExportImage (Image x) description (to_str asset_id)) \<longrightarrow>
      export_asset (Image x) asset_id description w =
        (Inr (PurePosixPath (to_str asset_id)),
         snd (wait (TaskObject
                 (started_task w (ExportImage (Image x) description (to_str asset_id))
                    description)) 60
               (record_call TaskList
                 (started w (ExportImage (Image x) description (to_str asset_id))
                    description)))))"
  by (simp add: export_asset_started) (simp add: export_asset_def)

theorem export_asset_dispatch_witness:
  "export_asset (Computed ''ee.Number(1)'') (Str ''users/bob/toto/folder_1/image'') ''toto_image''
     empty_account = (Inl ValueError, empty_account) \<and>
   export_asset (FeatureCollection ''ee.FeatureCollection(ee.Geometry.Point([0, 0]))'')
     (Str ''users/bob/toto/folder_1/fc'') ''toto_fc'' empty_account =
     (Inr (PurePosixPath ''users/bob/toto/folder_1/fc''),
      polled
        (started_task empty_account
           (ExportTable (FeatureCollection ''ee.FeatureCollection(ee.Geometry.Point([0, 0]))'')
              ''toto_fc'' ''users/bob/toto/folder_1/fc'') ''toto_fc'') 3
        (sleep 5 (record_call TaskList
           (started empty_account
              (ExportTable (FeatureCollection ''ee.FeatureCollection(ee.Geometry.Point([0, 0]))'')
                 ''toto_fc'' ''users/bob/toto/folder_1/fc'') ''toto_fc'')))) \<and>
   export_asset (Image ''ee.Image(1)'') (Str ''users/bob/toto/folder_1/image'') ''toto_image''
     empty_account =
     (Inr (PurePosixPath ''users/bob/toto/folder_1/image''),
      polled
        (started_task empty_account
           (ExportImage (Image ''ee.Image(1)'') ''toto_image'' ''users/bob/toto/folder_1/image'')
           ''toto_image'') 3
        (sleep 5 (record_call TaskList
           (started empty_account
              (ExportImage (Image ''ee.Image(1)'') ''toto_image'' ''users/bob/toto/folder_1/image'')
              ''toto_image''))))"
  using export_asset_dispatch [where x = "''ee.Number(1)''" and w = empty_account
      and asset_id = "Str ''users/bob/toto/folder_1/image''" and description = "''toto_image''"]
    export_asset_dispatch [where x = "''ee.FeatureCollection(ee.Geometry.Point([0, 0]))''"
      and w = empty_account and asset_id = "Str ''users/bob/toto/folder_1/fc''"
      and description = "''toto_fc''"]
    export_asset_dispatch [where x = "''ee.Image(1)''" and w = empty_account
      and asset_id = "Str ''users/bob/toto/folder_1/image''" and description = "''toto_image''"]
  by (simp add: empty_account_takes_all wait_started_toto)

section \<open>Properties of \<open>init_tree\<close>\<close>

text \<open>Under a path with components, a plain key adds one component.\<close>

lemma split_scan_plain: "c \<notin> set s \<Longrightarrow> split_scan piece s c = [piece @ s]"
  by (induction s arbitrary: piece) auto

lemma join_snoc: "ps \<noteq> [] \<Longrightarrow> join sep (ps @ [p]) = join sep ps @ sep @ p"
  by (induction sep ps rule: join.induct) auto

lemma truediv_plain_tail:
  assumes "plain nm"
  shows "path_tail (truediv p nm) = path_tail p @ [nm]"
proof -
  have "hd nm \<noteq> CHR ''/''"
    using assms by (cases nm) (auto simp: plain_def)
  moreover have "split nm CHR ''/'' = [nm]"
    using assms by (simp add: split_def split_scan_plain plain_def)
  ultimately show ?thesis
    using assms by (simp add: truediv_def plain_def)
qed

lemma truediv_plain:
  assumes "plain nm" and "path_tail p \<noteq> []"
  shows "as_posix (truediv p nm) = as_posix p @ ''/'' @ nm"
proof -
  have "hd nm \<noteq> CHR ''/''"
    using assms(1) by (cases nm) (auto simp: plain_def)
  then have "path_root (truediv p nm) = path_root p"
    by (simp add: truediv_def)
  then show ?thesis
    using assms by (simp add: as_posix_def truediv_plain_tail join_snoc)
qed

lemma planned_named:
  "plain_keys tree \<Longrightarrow> path_tail folder \<noteq> [] \<Longrightarrow>
   planned prefix folder tree = named prefix (as_posix folder) tree"
proof (induction prefix folder tree rule: planned.induct)
  case (2 prefix folder name sub rest)
  then have "path_tail (truediv folder name) \<noteq> []"
    by (simp add: truediv_plain_tail)
  with 2 show ?case
    by (simp add: truediv_plain)
qed (simp_all add: truediv_plain)

lemma changes_record_call:
  "changes (record_call r w) = changes w @ (if changing r then [r] else [])"
  by (simp add: changes_def record_call_def)

lemma refuses_record_call: "refuses (record_call r w) = refuses w"
  by (simp add: record_call_def)

lemma changes_started: "changes (started w r d) = changes w @ (if changing r then [r] else [])"
  by (simp add: changes_def started_def record_call_def)

lemma refuses_started: "refuses (started w r d) = refuses w"
  by (simp add: started_def record_call_def)

lemma to_asset_changing: "to_asset object d p = Some r \<Longrightarrow> changing r"
  by (cases object) auto

lemma received_changing: "changing r \<Longrightarrow> r \<in> set (calls w) \<longleftrightarrow> r \<in> set (changes w)"
  by (simp add: changes_def)

text \<open>What a changing request and an export have done when they return.\<close>

lemma submit_returns: "submit r w = (Inr u, w') \<Longrightarrow> w' = record_call r w"
  by (auto simp: submit_def split: if_splits)

lemma export_asset_returns:
  assumes "export_asset object asset_id description w = (Inr p, w')"
  shows "\<exists>r. to_asset object description (to_str asset_id) = Some r \<and>
           changes w' = changes w @ [r] \<and> refuses w' = refuses w"
proof -
  from assms obtain r where r: "to_asset object description (to_str asset_id) = Some r"
    by (auto simp: export_asset_def split: option.splits)
  have acc: "\<not> refuses w (calls w) r"
    using assms r
    by (auto simp: export_asset_def start_def submit_def split: if_splits)
  let ?w1 = "record_call TaskList (started w r description)"
  obtain state w2 where
    w: "wait (TaskObject (started_task w r description)) 60 ?w1 = (Inr state, w2)" and
    c: "changes w2 = changes ?w1" and f: "refuses w2 = refuses ?w1"
    using wait_task_object_frame by blast
  have "w' = w2"
    using assms export_asset_started [OF r acc] w by simp
  then show ?thesis
    using r c f to_asset_changing [OF r]
    by (simp add: changes_record_call changes_started refuses_record_call refuses_started)
qed

lemma recursive_create_returns:
  "recursive_create tree prefix folder w = (Inr (), w') \<Longrightarrow>
   changes w' = changes w @ planned prefix folder tree"
proof (induction tree prefix folder w arbitrary: w' rule: recursive_create.induct)
  case (1 prefix folder w)
  then show ?case by simp
next
  case (2 name sub rest prefix folder w)
  let ?c = "CreateFolder (as_posix (truediv folder name))"
  from "2.prems" obtain w1 w2 where
    s: "submit ?c w = (Inr (), w1)" and
    r2: "recursive_create sub prefix (truediv folder name) w1 = (Inr (), w2)" and
    r3: "recursive_create rest prefix folder w2 = (Inr (), w')"
    by (auto split: prod.splits sum.splits)
  have c1: "changes w1 = changes w @ [?c]"
    using submit_returns [OF s] by (simp add: changes_record_call)
  have c2: "changes w2 = changes w1 @ planned prefix (truediv folder name) sub"
    using "2.IH"(1) [OF s [symmetric] refl r2] .
  have c3: "changes w' = changes w2 @ planned prefix folder rest"
    using "2.IH"(2) [OF s [symmetric] refl r2 [symmetric] refl r3] .
  show ?case
    using c1 c2 c3 by simp
next
  case (3 name obj rest prefix folder w)
  from "3.prems" obtain p w1 where
    x: "export_asset obj (Path (truediv folder name)) (prefix @ ''_'' @ name) w = (Inr p, w1)" and
    r2: "recursive_create rest prefix folder w1 = (Inr (), w')"
    by (auto split: prod.splits sum.splits)
  from export_asset_returns [OF x] obtain r where
    r: "to_asset obj (prefix @ ''_'' @ name) (as_posix (truediv folder name)) = Some r" and
    c1: "changes w1 = changes w @ [r]"
    by auto
  have pl: "planned prefix folder ((name, Object obj) # rest) = r # planned prefix folder rest"
    using r by (cases obj) auto
  have c2: "changes w' = changes w1 @ planned prefix folder rest"
    using "3.IH" [OF x [symmetric] refl r2] .
  show ?case
    using c1 c2 pl by simp
qed

text \<open>
  On a platform that raises on repeats only, requests it has not received are taken: a
  specification whose plan has no request twice, and none the platform has received,
  is carried out.
\<close>

lemma repeats_only_frame: "refuses w' = refuses w \<Longrightarrow> repeats_only w \<Longrightarrow> repeats_only w'"
  by (simp add: repeats_only_def)

lemma fresh_accepted:
  assumes "repeats_only w" and "changing r" and "r \<notin> set (changes w)"
  shows "\<not> refuses w (calls w) r"
proof
  assume "refuses w (calls w) r"
  with assms(1) have "r \<in> set (calls w)"
    unfolding repeats_only_def by blast
  with assms(2) have "r \<in> set (changes w)"
    by (simp add: changes_def)
  with assms(3) show False ..
qed

lemma submit_fresh:
  assumes "repeats_only w" and "changing r" and "r \<notin> set (changes w)"
  shows "submit r w = (Inr (), record_call r w)"
proof -
  have "\<not> refuses w (calls w) r"
    by (rule fresh_accepted [OF assms])
  then show ?thesis
    by (simp add: submit_def)
qed

lemma export_asset_fresh:
  assumes r: "to_asset object description (to_str asset_id) = Some r"
    and ro: "repeats_only w" and fresh: "r \<notin> set (changes w)"
  shows "\<exists>p w'. export_asset object asset_id description w = (Inr p, w') \<and> repeats_only w'"
proof -
  have acc: "\<not> refuses w (calls w) r"
    using fresh_accepted [OF ro to_asset_changing [OF r] fresh] .
  define w' where "w' = snd (wait (TaskObject (started_task w r description)) 60
                   (record_call TaskList (started w r description)))"
  have x: "export_asset object asset_id description w = (Inr (PurePosixPath (to_str asset_id)), w')"
    unfolding w'_def by (rule export_asset_started [OF r acc])
  have "refuses w' = refuses w"
    using export_asset_returns [OF x] by blast
  then have ro': "repeats_only w'"
    using ro by (rule repeats_only_frame)
  show ?thesis
  proof (intro exI conjI)
    show "export_asset object asset_id description w = (Inr (PurePosixPath (to_str asset_id)), w')"
      by (rule x)
    show "repeats_only w'"
      by (rule ro')
  qed
qed

lemma planned_changing: "r \<in> set (planned prefix folder tree) \<Longrightarrow> changing r"
  by (induction prefix folder tree rule: planned.induct) auto

lemma recursive_create_fresh:
  "exportable tree \<Longrightarrow> repeats_only w \<Longrightarrow> distinct (planned prefix folder tree) \<Longrightarrow>
   set (planned prefix folder tree) \<inter> set (changes w) = {} \<Longrightarrow>
   \<exists>w'. recursive_create tree prefix folder w = (Inr (), w') \<and> repeats_only w'"
proof (induction tree prefix folder w rule: recursive_create.induct)
  case (1 prefix folder w)
  then show ?case by simp
next
  case (2 name sub rest prefix folder w)
  define c where "c = CreateFolder (as_posix (truediv folder name))"
  define A where "A = planned prefix (truediv folder name) sub"
  define B where "B = planned prefix folder rest"
  define w1 where "w1 = record_call c w"
  have pl: "planned prefix folder ((name, Mapping sub) # rest) = c # A @ B"
    by (simp add: c_def A_def B_def)
  have d: "c \<notin> set A" "c \<notin> set B" "distinct A" "distinct B" "set A \<inter> set B = {}"
    using "2.prems"(3) unfolding pl by auto
  have f: "c \<notin> set (changes w)" "set A \<inter> set (changes w) = {}"
      "set B \<inter> set (changes w) = {}"
    using "2.prems"(4) unfolding pl by auto
  have e: "exportable sub" "exportable rest"
    using "2.prems"(1) by simp_all
  have s: "submit c w = (Inr (), w1)"
    unfolding w1_def using "2.prems"(2) f(1) by (intro submit_fresh) (simp_all add: c_def)
  have ro1: "repeats_only w1"
    unfolding w1_def using refuses_record_call "2.prems"(2) by (rule repeats_only_frame)
  have c1: "changes w1 = changes w @ [c]"
    by (simp add: w1_def changes_record_call c_def)
  have f1: "set A \<inter> set (changes w1) = {}"
    using d(1) f(2) by (auto simp: c1)
  obtain w2 where
    r2: "recursive_create sub prefix (truediv folder name) w1 = (Inr (), w2)" and
    ro2: "repeats_only w2"
    using "2.IH"(1) [OF s [unfolded c_def, symmetric] refl e(1) ro1 d(3) [unfolded A_def]
        f1 [unfolded A_def]]
    by blast
  have c2: "changes w2 = changes w1 @ A"
    unfolding A_def by (rule recursive_create_returns [OF r2])
  have f2: "set B \<inter> set (changes w2) = {}"
    using d(2,5) f(3) by (auto simp: c1 c2)
  obtain w3 where
    r3: "recursive_create rest prefix folder w2 = (Inr (), w3)" and ro3: "repeats_only w3"
    using "2.IH"(2) [OF s [unfolded c_def, symmetric] refl r2 [symmetric] refl e(2) ro2
        d(4) [unfolded B_def] f2 [unfolded B_def]]
    by blast
  show ?case
    using s [unfolded c_def] r2 r3 ro3 by simp
next
  case (3 name obj rest prefix folder w)
  define B where "B = planned prefix folder rest"
  from "3.prems"(1) obtain r where
    r: "to_asset obj (prefix @ ''_'' @ name) (to_str (Path (truediv folder name))) = Some r" and
    pl: "planned prefix folder ((name, Object obj) # rest) = r # B" and
    e: "exportable rest"
    unfolding B_def by (cases obj) auto
  have d: "r \<notin> set B" "distinct B"
    using "3.prems"(3) unfolding pl by auto
  have f: "r \<notin> set (changes w)" "set B \<inter> set (changes w) = {}"
    using "3.prems"(4) unfolding pl by auto
  from export_asset_fresh [OF r "3.prems"(2) f(1)] obtain p w1 where
    x: "export_asset obj (Path (truediv folder name)) (prefix @ ''_'' @ name) w = (Inr p, w1)" and
    ro1: "repeats_only w1"
    by blast
  have c1: "changes w1 = changes w @ [r]"
    using export_asset_returns [OF x] r by auto
  have f1: "set B \<inter> set (changes w1) = {}"
    using d(1) f(2) by (auto simp: c1)
  obtain w2 where
    r2: "recursive_create rest prefix folder w1 = (Inr (), w2)" and ro2: "repeats_only w2"
    using "3.IH" [OF x [symmetric] refl e ro1 d(2) [unfolded B_def] f1 [unfolded B_def]]
    by blast
  show ?case
    using x r2 ro2 by simp
qed

lemma init_tree_fresh:
  assumes "asset_roots w \<noteq> []" and "exportable tree" and "repeats_only w"
    and "distinct (CreateFolder (root_folder w prefix) #
           planned prefix (PurePosixPath (root_folder w prefix)) tree)"
    and "set (CreateFolder (root_folder w prefix) #
           planned prefix (PurePosixPath (root_folder w prefix)) tree) \<inter> set (changes w) = {}"
  shows "fst (init_tree tree prefix root w) = Inr (PurePosixPath (root_folder w prefix))"
proof -
  obtain r rs where roots: "asset_roots w = r # rs"
    using assms(1) by (cases "asset_roots w") auto
  let ?rf = "a_id r @ ''/'' @ prefix"
  have rf: "root_folder w prefix = ?rf"
    using roots by (simp add: root_folder_def)
  let ?w1 = "record_call (CreateFolder ?rf) w"
  have fr: "CreateFolder ?rf \<notin> set (changes w)"
    using assms(5) by (simp add: rf)
  have s: "submit (CreateFolder ?rf) w = (Inr (), ?w1)"
    using assms(3) fr by (intro submit_fresh) simp_all
  have d: "distinct (planned prefix (PurePosixPath ?rf) tree)"
      "CreateFolder ?rf \<notin> set (planned prefix (PurePosixPath ?rf) tree)"
    using assms(4) by (simp_all add: rf)
  have "set (planned prefix (PurePosixPath ?rf) tree) \<inter> set (changes w) = {}"
    using assms(5) by (simp add: rf)
  then have f1: "set (planned prefix (PurePosixPath ?rf) tree) \<inter> set (changes ?w1) = {}"
    using d(2) by (auto simp: changes_record_call)
  have ro1: "repeats_only ?w1"
    using refuses_record_call assms(3) by (rule repeats_only_frame)
  from recursive_create_fresh [OF assms(2) ro1 d(1) f1] obtain w2 where
    "recursive_create tree prefix (PurePosixPath ?rf) ?w1 = (Inr (), w2)"
    by (elim exE conjE)
  with s roots show ?thesis
    by (simp add: init_tree_def rf)
qed

lemma planned_toto:
  "planned ''toto'' (PurePosixPath ''users/bob/toto'') toto_structure =
     [CreateFolder ''users/bob/toto/folder_1'',
      ExportImage (Image ''ee.Image(1)'') ''toto_image'' ''users/bob/toto/folder_1/image'',
      ExportTable (FeatureCollection ''ee.FeatureCollection(ee.Geometry.Point([0, 0]))'')
        ''toto_fc'' ''users/bob/toto/folder_1/fc'']"
proof -
  have p: "PurePosixPath ''users/bob/toto'' = \<lparr>path_root = [], path_tail = [''users'', ''bob'', ''toto'']\<rparr>"
    by (simp add: PurePosixPath_def split_def)
  have f: "truediv \<lparr>path_root = [], path_tail = [''users'', ''bob'', ''toto'']\<rparr> ''folder_1'' =
           \<lparr>path_root = [], path_tail = [''users'', ''bob'', ''toto'', ''folder_1'']\<rparr>"
    by (simp add: truediv_def split_def)
  have i: "as_posix (truediv \<lparr>path_root = [], path_tail = [''users'', ''bob'', ''toto'', ''folder_1'']\<rparr>
             ''image'') = ''users/bob/toto/folder_1/image''"
    by (simp add: truediv_def split_def as_posix_def)
  have c: "as_posix (truediv \<lparr>path_root = [], path_tail = [''users'', ''bob'', ''toto'', ''folder_1'']\<rparr>
             ''fc'') = ''users/bob/toto/folder_1/fc''"
    by (simp add: truediv_def split_def as_posix_def)
  have d: "as_posix \<lparr>path_root = [], path_tail = [''users'', ''bob'', ''toto'', ''folder_1'']\<rparr> =
           ''users/bob/toto/folder_1''"
    by (simp add: as_posix_def)
  show ?thesis
    by (simp add: toto_structure_def p f i c d)
qed

lemma strict_account_facts:
  "asset_roots strict_account \<noteq> []"
  "root_folder strict_account ''toto'' = ''users/bob/toto''"
  "changes strict_account = []"
  "repeats_only strict_account"
  "exportable toto_structure"
  "plain_keys toto_structure"
  by (simp_all add: strict_account_def empty_account_def root_folder_def changes_def
      repeats_only_def toto_structure_def plain_def)

lemma toto_path:
  "path_tail (PurePosixPath ''users/bob/toto'') \<noteq> []"
  "as_posix (PurePosixPath ''users/bob/toto'') = ''users/bob/toto''"
  by (simp_all add: PurePosixPath_def split_def as_posix_def)

lemma init_tree_toto_returns:
  "fst (init_tree toto_structure ''toto'' root strict_account) =
     Inr (PurePosixPath ''users/bob/toto'')"
  using init_tree_fresh [of strict_account toto_structure "''toto''" root]
  by (simp add: strict_account_facts planned_toto)

text \<open>
  Claim C7. When \<open>init_tree\<close> returns, on any platform: the account has a root; the path
  returned is that of the string made of the id of the first root, a slash and the prefix;
  and the changing requests sent are the creation of a folder at that string and then,
  item by item, a folder named after the key followed by the requests of its mapping, or
  the export of the object to an asset named after the key with the description prefix,
  underscore, key (\<open>planned\<close>), and nothing else. When every key is plain and the root
  path has a component, a key \<open>k\<close> under a folder \<open>f\<close> names \<open>f/k\<close> (\<open>named\<close>).
  The witness is the specification of the docstring with the prefix \<open>toto\<close>, on a
  platform that raises on the creation of a folder that exists: one folder
  \<open>folder_1\<close>, and the exports \<open>image\<close> and \<open>fc\<close> described \<open>toto_image\<close> and
  \<open>toto_fc\<close>.
\<close>

theorem init_tree_creates:
  assumes "init_tree tree prefix root w = (Inr p, w')"
  shows "asset_roots w \<noteq> [] \<and>
         p = PurePosixPath (root_folder w prefix) \<and>
         changes w' = changes w @ CreateFolder (root_folder w prefix) # planned prefix p tree \<and>
         (plain_keys tree \<and> path_tail p \<noteq> [] \<longrightarrow>
            planned prefix p tree = named prefix (as_posix p) tree)"
proof -
  from assms obtain r rs where roots: "asset_roots w = r # rs"
    by (cases "asset_roots w") (auto simp: init_tree_def)
  let ?rf = "a_id r @ ''/'' @ prefix"
  have rf: "root_folder w prefix = ?rf"
    using roots by (simp add: root_folder_def)
  from assms roots obtain w1 where
    s: "submit (CreateFolder ?rf) w = (Inr (), w1)" and
    rc: "recursive_create tree prefix (PurePosixPath ?rf) w1 = (Inr (), w')" and
    p: "p = PurePosixPath ?rf"
    by (auto simp: init_tree_def Let_def split: prod.splits sum.splits)
  have "changes w1 = changes w @ [CreateFolder ?rf]"
    using submit_returns [OF s] by (simp add: changes_record_call)
  with recursive_create_returns [OF rc]
  have "changes w' = changes w @ CreateFolder ?rf # planned prefix p tree"
    by (simp add: p)
  then show ?thesis
    using roots p rf by (simp add: planned_named)
qed

theorem init_tree_creates_witness:
  "fst (init_tree toto_structure ''toto'' ''users/alice'' strict_account) =
     Inr (PurePosixPath ''users/bob/toto'') \<and>
   changes (snd (init_tree toto_structure ''toto'' ''users/alice'' strict_account)) =
     [CreateFolder ''users/bob/toto'',
      CreateFolder ''users/bob/toto/folder_1'',
      ExportImage (Image ''ee.Image(1)'') ''toto_image'' ''users/bob/toto/folder_1/image'',
      ExportTable (FeatureCollection ''ee.FeatureCollection(ee.Geometry.Point([0, 0]))'')
        ''toto_fc'' ''users/bob/toto/folder_1/fc''] \<and>
   named ''toto'' ''users/bob/toto'' toto_structure =
     [CreateFolder ''users/bob/toto/folder_1'',
      ExportImage (Image ''ee.Image(1)'') ''toto_image'' ''users/bob/toto/folder_1/image'',
      ExportTable (FeatureCollection ''ee.FeatureCollection(ee.Geometry.Point([0, 0]))'')
        ''toto_fc'' ''users/bob/toto/folder_1/fc'']"
proof -
  let ?run = "init_tree toto_structure ''toto'' ''users/alice'' strict_account"
  have ret: "?run = (Inr (PurePosixPath ''users/bob/toto''), snd ?run)"
    using init_tree_toto_returns [of "''users/alice''"] by (simp add: prod_eq_iff)
  have keys: "plain_keys toto_structure \<and> path_tail (PurePosixPath ''users/bob/toto'') \<noteq> []"
    by (simp add: strict_account_facts toto_path)
  from init_tree_creates [OF ret] keys show ?thesis
    by (simp add: init_tree_toto_returns strict_account_facts planned_toto toto_path)
qed

text \<open>
  Claim C9. The argument \<open>root\<close> has no effect: two calls that differ in it alone return
  the same result and leave the platform in the same state.
\<close>

theorem init_tree_root_ignored:
  "init_tree tree prefix root w = init_tree tree prefix root' w"
  by (simp add: init_tree_def)

end
